theory Spec2Isabelle
  imports Main "HOL-Library.Sublist"
begin

section \<open>The adapter trimmer wrapper (encode\_dcc\_trim\_adapter.py)\<close>

text \<open>
  The script parses its command line into a matrix of FASTQ paths and a matrix of
  adapters (\<open>parse_arguments\<close>), then \<open>main\<close> submits detection tasks to a
  process pool, stores what they return, submits one trim task per row, collects the
  returned paths and writes them as a TSV.  The model keeps that structure: every
  exception is a value of \<open>error\<close>, every call that leaves the process is an
  \<open>event\<close> of a trace, and everything the script imports from modules that are not
  part of this file is a field of the record \<open>world\<close>.
\<close>

subsection \<open>Errors, Python values\<close>

datatype error =
    ArgumentTypeError string
  | IndexError
  | TypeError
  | ValueError
  | TimeoutError
  | External string

text \<open>
  A row of \<open>args.adapters\<close> is a list of strings when it comes from a TSV or from the
  default fill, and a bare string when the command-line tokens are left as they are.
  Python indexes and measures both; it assigns only into the list.
\<close>

datatype row = Cols "string list" | Tok string

definition index :: "'a list \<Rightarrow> nat \<Rightarrow> error + 'a" where
  "index xs i = (if i < length xs then Inr (xs ! i) else Inl IndexError)"

fun row_len :: "row \<Rightarrow> nat" where
  "row_len (Cols xs) = length xs"
| "row_len (Tok s) = length s"

fun row_get :: "row \<Rightarrow> nat \<Rightarrow> error + string" where
  "row_get (Cols xs) j = index xs j"
| "row_get (Tok s) j = (if j < length s then Inr [s ! j] else Inl IndexError)"

fun row_set :: "row \<Rightarrow> nat \<Rightarrow> string \<Rightarrow> error + row" where
  "row_set (Cols xs) j v = (if j < length xs then Inr (Cols (xs[j := v])) else Inl IndexError)"
| "row_set (Tok s) j v = Inl TypeError"

text \<open>\<open>str(x)\<close> for what the detector returns: a string, or Python's \<open>None\<close>.\<close>

fun str :: "string option \<Rightarrow> string" where
  "str None = ''None''"
| "str (Some s) = s"

text \<open>Decimal text of an integer, as \<open>'{}'.format\<close> gives it.\<close>

fun str_nat :: "nat \<Rightarrow> string" where
  "str_nat n =
     (if n < 10 then [''0123456789'' ! n]
      else str_nat (n div 10) @ [''0123456789'' ! (n mod 10)])"

declare str_nat.simps [simp del]

definition str_int :: "int \<Rightarrow> string" where
  "str_int i = (if i < 0 then ''-'' @ str_nat (nat (- i)) else str_nat (nat i))"

subsection \<open>os.path\<close>

definition endswith :: "string \<Rightarrow> string \<Rightarrow> bool" where
  "endswith s suf = suffix suf s"

definition startswith :: "string \<Rightarrow> string \<Rightarrow> bool" where
  "startswith s pre = prefix pre s"

text \<open>\<open>os.path.basename(p)\<close>: what follows the last slash.\<close>

definition basename :: "string \<Rightarrow> string" where
  "basename p = rev (takeWhile (\<lambda>c. c \<noteq> CHR ''/'') (rev p))"

text \<open>\<open>os.path.join(a, b)\<close> of posixpath, for two components.\<close>

definition path_join :: "string \<Rightarrow> string \<Rightarrow> string" where
  "path_join a b =
     (if startswith b ''/'' then b
      else if a = [] \<or> endswith a ''/'' then a @ b
      else a @ ''/'' @ b)"

subsection \<open>What the script imports\<close>

text \<open>
  \<open>read_tsv\<close>, \<open>mkdir_p\<close>, \<open>strip_ext_fastq\<close> and \<open>run_shell_cmd\<close> come from
  \<open>encode_dcc_common\<close>, \<open>detect_most_likely_adapter\<close> from \<open>detect_adapter\<close>;
  \<open>os.path.exists\<close> and \<open>os.link\<close> ask the file system.  None of them is defined
  in this file, so each is a parameter.  A call that can raise returns an \<open>error\<close>;
  the detector returns a string or \<open>None\<close>.
\<close>

record world =
  path_exists :: "string \<Rightarrow> bool"
  read_tsv :: "string \<Rightarrow> error + string list list"
  mkdir_p :: "string \<Rightarrow> error option"
  detect_most_likely_adapter :: "string \<Rightarrow> error + string option"
  strip_ext_fastq :: "string \<Rightarrow> string"
  run_shell_cmd :: "string \<Rightarrow> error option"
  os_link :: "string \<Rightarrow> string \<Rightarrow> error option"

subsection \<open>parse\_arguments\<close>

text \<open>
  \<open>cmdline\<close> is the namespace argparse returns (\<open>--adapters\<close> absent is
  \<open>None\<close>; \<open>err_rate\<close> is carried as the text \<open>format\<close> gives the float, no
  arithmetic is done on it).  \<open>args\<close> is the namespace \<open>parse_arguments\<close> returns,
  with \<open>fastqs\<close> and \<open>adapters\<close> rewritten.
\<close>

record cmdline =
  cl_fastqs :: "string list"
  cl_adapters :: "string list option"
  cl_auto_detect_adapter :: bool
  cl_min_trim_len :: int
  cl_err_rate :: string
  cl_paired_end :: bool
  cl_nth :: int
  cl_out_dir :: string
  cl_out_tsv :: string

record args =
  fastqs :: "string list list"
  adapters :: "row list"
  auto_detect_adapter :: bool
  min_trim_len :: int
  err_rate :: string
  paired_end :: bool
  nth :: int
  out_dir :: string
  out_tsv :: string

text \<open>Lines 52-56: a first token ending in \<open>.gz\<close> makes every token a row of its own.\<close>

definition parse_fastqs :: "world \<Rightarrow> string list \<Rightarrow> error + string list list" where
  "parse_fastqs w fs =
     (case fs of
        [] \<Rightarrow> Inl IndexError
      | f # _ \<Rightarrow> if endswith f ''.gz'' then Inr (map (\<lambda>f. [f]) fs) else read_tsv w f)"

text \<open>
  Lines 58-63.  The result is the pair (\<open>args.fastqs\<close>, \<open>args.adapters\<close>) after the
  block; the \<open>else\<close> branch assigns to \<open>args.fastqs\<close> and leaves
  \<open>args.adapters\<close> the list of tokens.
\<close>

definition parse_adapters ::
  "world \<Rightarrow> string list list \<Rightarrow> string list option \<Rightarrow> error + (string list list \<times> row list option)"
where
  "parse_adapters w fq ad =
     (case ad of
        None \<Rightarrow> Inr (fq, None)
      | Some [] \<Rightarrow> Inr (fq, Some [])
      | Some (a # as) \<Rightarrow>
          if path_exists w a then
            (case read_tsv w a of
               Inl e \<Rightarrow> Inl e
             | Inr m \<Rightarrow> Inr (fq, Some (map Cols m)))
          else Inr (map (\<lambda>a. [a]) (a # as), Some (map Tok (a # as))))"

text \<open>Lines 65-70: no adapters (\<open>None\<close> or an empty list) gives a copy of \<open>fastqs\<close>
  with every cell the empty string.\<close>

definition fill_adapters :: "string list list \<Rightarrow> row list option \<Rightarrow> row list" where
  "fill_adapters fq ad =
     (case ad of
        Some (r # rs) \<Rightarrow> r # rs
      | _ \<Rightarrow> map (\<lambda>fs. Cols (map (\<lambda>_. []) fs)) fq)"

definition msg_mismatch :: string where
  "msg_mismatch = ''fastqs and adapters dimension mismatch.''"

definition msg_need2 :: string where
  "msg_need2 = ''Need 2 fastqs per replicate for paired end.''"

definition msg_need1 :: string where
  "msg_need1 = ''Need 1 fastq per replicate for single end.''"

text \<open>Lines 76-85: the loop over \<open>enumerate(args.fastqs)\<close>, \<open>i\<close> the running index.\<close>

fun check_rows :: "bool \<Rightarrow> row list \<Rightarrow> nat \<Rightarrow> string list list \<Rightarrow> error + unit" where
  "check_rows pe ad i [] = Inr ()"
| "check_rows pe ad i (fs # rest) =
     (if pe \<and> length fs \<noteq> 2 then Inl (ArgumentTypeError msg_need2)
      else if \<not> pe \<and> length fs \<noteq> 1 then Inl (ArgumentTypeError msg_need1)
      else case index ad i of
             Inl e \<Rightarrow> Inl e
           | Inr a \<Rightarrow>
               if length fs \<noteq> row_len a then Inl (ArgumentTypeError msg_mismatch)
               else check_rows pe ad (Suc i) rest)"

text \<open>Lines 72-85.\<close>

definition check_dimension :: "bool \<Rightarrow> string list list \<Rightarrow> row list \<Rightarrow> error + unit" where
  "check_dimension pe fq ad =
     (if length ad \<noteq> length fq then Inl (ArgumentTypeError msg_mismatch)
      else check_rows pe ad 0 fq)"

definition parse_arguments :: "world \<Rightarrow> cmdline \<Rightarrow> error + args" where
  "parse_arguments w c =
     (case parse_fastqs w (cl_fastqs c) of
        Inl e \<Rightarrow> Inl e
      | Inr fq0 \<Rightarrow>
          (case parse_adapters w fq0 (cl_adapters c) of
             Inl e \<Rightarrow> Inl e
           | Inr (fq, ad0) \<Rightarrow>
               let ad = fill_adapters fq ad0 in
               (case check_dimension (cl_paired_end c) fq ad of
                  Inl e \<Rightarrow> Inl e
                | Inr _ \<Rightarrow>
                    Inr \<lparr> fastqs = fq, adapters = ad,
                          auto_detect_adapter = cl_auto_detect_adapter c,
                          min_trim_len = cl_min_trim_len c,
                          err_rate = cl_err_rate c,
                          paired_end = cl_paired_end c,
                          nth = cl_nth c,
                          out_dir = cl_out_dir c,
                          out_tsv = cl_out_tsv c \<rparr>)))"

subsection \<open>The trim tasks\<close>

text \<open>
  What a task does outside the process: \<open>run_shell_cmd(cmd)\<close> or
  \<open>os.link(src, dst)\<close>.  A task returns the actions it attempted, in order, and its
  value or the exception it raised.
\<close>

datatype action = Shell string | Link string string

text \<open>The first format argument of both commands (lines 98 and 123).\<close>

definition min_len_opt :: "int \<Rightarrow> string" where
  "min_len_opt m = (if m > 0 then ''-m '' @ str_int m else [])"

text \<open>Lines 91-110.\<close>

definition trim_adapter_se ::
  "world \<Rightarrow> string \<Rightarrow> string \<Rightarrow> int \<Rightarrow> string \<Rightarrow> string \<Rightarrow> action list \<times> (error + string)"
where
  "trim_adapter_se w fastq adapter min_len e_rate odir =
     (if adapter \<noteq> [] then
        let pfx = path_join odir (basename (strip_ext_fastq w fastq));
            trimmed = pfx @ ''.trim.fastq.gz'';
            cmd = ''cutadapt '' @ min_len_opt min_len @ '' -e '' @ e_rate @ '' -a '' @ adapter
                  @ '' '' @ fastq @ '' | gzip -nc > '' @ trimmed
        in ([Shell cmd], case run_shell_cmd w cmd of Some err \<Rightarrow> Inl err | None \<Rightarrow> Inr trimmed)
      else
        let linked = path_join odir (basename fastq)
        in ([Link fastq linked],
            case os_link w fastq linked of Some err \<Rightarrow> Inl err | None \<Rightarrow> Inr linked))"

text \<open>Lines 112-138.\<close>

definition trim_adapter_pe ::
  "world \<Rightarrow> string \<Rightarrow> string \<Rightarrow> string \<Rightarrow> string \<Rightarrow> int \<Rightarrow> string \<Rightarrow> string
     \<Rightarrow> action list \<times> (error + string list)"
where
  "trim_adapter_pe w fastq1 fastq2 adapter1 adapter2 min_len e_rate odir =
     (if adapter1 \<noteq> [] \<and> adapter2 \<noteq> [] then
        let pfx1 = path_join odir (basename (strip_ext_fastq w fastq1));
            pfx2 = path_join odir (basename (strip_ext_fastq w fastq2));
            trimmed1 = pfx1 @ ''.trim.fastq.gz'';
            trimmed2 = pfx2 @ ''.trim.fastq.gz'';
            cmd = ''cutadapt '' @ min_len_opt min_len @ '' -e '' @ e_rate
                  @ '' -a '' @ adapter1 @ '' -A '' @ adapter2
                  @ '' '' @ fastq1 @ '' '' @ fastq2
                  @ '' -o '' @ trimmed1 @ '' -p '' @ trimmed2
        in ([Shell cmd],
            case run_shell_cmd w cmd of Some err \<Rightarrow> Inl err | None \<Rightarrow> Inr [trimmed1, trimmed2])
      else
        let linked1 = path_join odir (basename fastq1);
            linked2 = path_join odir (basename fastq2)
        in (case os_link w fastq1 linked1 of
              Some err \<Rightarrow> ([Link fastq1 linked1], Inl err)
            | None \<Rightarrow>
                ([Link fastq1 linked1, Link fastq2 linked2],
                 case os_link w fastq2 linked2 of
                   Some err \<Rightarrow> Inl err
                 | None \<Rightarrow> Inr [linked1, linked2])))"

subsection \<open>The process pool\<close>

text \<open>
  \<open>pool.apply_async\<close> appends a task and returns a handle, here the task's position
  in submission order.  The workers finish tasks in an order the script does not
  control: \<open>order\<close> lists the handles in completion order, and \<open>arrivals\<close> is the
  list of results as they arrive.  \<open>ret_val.get(BIG_INT)\<close> looks the handle up; a task
  that never arrives ends in \<open>TimeoutError\<close>, an exception raised in the task is
  raised again by \<open>get\<close>.  What a task returns is a function \<open>run\<close> of its
  arguments: the tasks share no state in the script, and what the external calls answer
  is fixed by the \<open>world\<close>.
\<close>

definition arrivals :: "nat list \<Rightarrow> ('t \<Rightarrow> 'r) \<Rightarrow> 't list \<Rightarrow> (nat \<times> 'r) list" where
  "arrivals order run tasks =
     map (\<lambda>k. (k, run (tasks ! k))) (filter (\<lambda>k. k < length tasks) order)"

definition get :: "(nat \<times> (error + 'r)) list \<Rightarrow> nat \<Rightarrow> error + 'r" where
  "get finished h = (case map_of finished h of None \<Rightarrow> Inl TimeoutError | Some r \<Rightarrow> r)"

subsection \<open>Traces\<close>

type_synonym se_task = "string \<times> string \<times> int \<times> string \<times> string"
type_synonym pe_task = "string \<times> string \<times> string \<times> string \<times> int \<times> string \<times> string"

datatype event =
    is_Mkdir: Mkdir string
  | is_Pool: Pool int
  | is_Submit_detect: Submit_detect string
  | is_Submit_trim_se: Submit_trim_se se_task
  | is_Submit_trim_pe: Submit_trim_pe pe_task
  | is_Write_tsv: Write_tsv string "string list list"

type_synonym 'a io = "event list \<times> (error + 'a)"

definition ret :: "'a \<Rightarrow> 'a io" where
  "ret x = ([], Inr x)"

definition lift :: "error + 'a \<Rightarrow> 'a io" where
  "lift r = ([], r)"

definition emit :: "event \<Rightarrow> unit io" where
  "emit ev = ([ev], Inr ())"

definition io_bind :: "'a io \<Rightarrow> ('a \<Rightarrow> 'b io) \<Rightarrow> 'b io" where
  "io_bind m f =
     (case m of
        (es, Inl e) \<Rightarrow> (es, Inl e)
      | (es, Inr x) \<Rightarrow> (case f x of (es', r) \<Rightarrow> (es @ es', r)))"

subsection \<open>main: the detection phase\<close>

text \<open>
  The condition of lines 167-168 and 175-176, with Python's short-circuit order:
  no row is indexed when auto-detection is off, and \<open>adapters[1]\<close> is read only when
  \<open>adapters[0]\<close> is not empty.
\<close>

definition needs_detect :: "bool \<Rightarrow> bool \<Rightarrow> row \<Rightarrow> error + bool" where
  "needs_detect pe auto a =
     (if \<not> auto then Inr False
      else if pe then
        (case row_get a 0 of
           Inl e \<Rightarrow> Inl e
         | Inr a0 \<Rightarrow>
             if a0 = [] then Inr True
             else (case row_get a 1 of Inl e \<Rightarrow> Inl e | Inr a1 \<Rightarrow> Inr (a1 = [])))
      else
        (case row_get a 0 of Inl e \<Rightarrow> Inl e | Inr a0 \<Rightarrow> Inr (a0 = [])))"

text \<open>\<open>pool.apply_async(detect_most_likely_adapter, (fastq,))\<close>.\<close>

definition apply_async_detect :: "string list \<Rightarrow> string \<Rightarrow> (string list \<times> nat) io" where
  "apply_async_detect tasks f = ([Submit_detect f], Inr (tasks @ [f], length tasks))"

text \<open>The body of the loop of lines 160-179 for one row; the state is the pool's task
  list and \<open>ret_vals\<close>.\<close>

definition detect_step ::
  "bool \<Rightarrow> bool \<Rightarrow> string list \<Rightarrow> row \<Rightarrow> string list \<times> nat list list
     \<Rightarrow> (string list \<times> nat list list) io"
where
  "detect_step pe auto fs a st =
     (case st of (tasks, ret_vals) \<Rightarrow>
        io_bind (lift (needs_detect pe auto a)) (\<lambda>b.
          if \<not> b then ret (tasks, ret_vals)
          else if pe then
            io_bind (lift (index fs 0)) (\<lambda>f0.
            io_bind (apply_async_detect tasks f0) (\<lambda>(tasks1, ret_val1).
            io_bind (lift (index fs 1)) (\<lambda>f1.
            io_bind (apply_async_detect tasks1 f1) (\<lambda>(tasks2, ret_val2).
            ret (tasks2, ret_vals @ [[ret_val1, ret_val2]])))))
          else
            io_bind (lift (index fs 0)) (\<lambda>f0.
            io_bind (apply_async_detect tasks f0) (\<lambda>(tasks1, ret_val1).
            ret (tasks1, ret_vals @ [[ret_val1]])))))"

fun detect_loop ::
  "bool \<Rightarrow> bool \<Rightarrow> string list list \<Rightarrow> row list \<Rightarrow> nat list \<Rightarrow> string list \<times> nat list list
     \<Rightarrow> (string list \<times> nat list list) io"
where
  "detect_loop pe auto fq ad [] st = ret st"
| "detect_loop pe auto fq ad (i # is) st =
     io_bind (lift (index fq i)) (\<lambda>fs.
     io_bind (lift (index ad i)) (\<lambda>a.
     io_bind (detect_step pe auto fs a st) (\<lambda>st'.
     detect_loop pe auto fq ad is st')))"

text \<open>
  Lines 182-186.  \<open>i\<close> and \<open>j\<close> are the indices \<open>enumerate\<close> gives: positions in
  \<open>ret_vals\<close> and in one of its entries.  The right-hand side is evaluated first, then
  \<open>args.adapters[i]\<close>, then the assignment into that row.
\<close>

fun update_row ::
  "(nat \<times> (error + string option)) list \<Rightarrow> row list \<Rightarrow> nat \<Rightarrow> nat \<Rightarrow> nat list \<Rightarrow> error + row list"
where
  "update_row finished ad i j [] = Inr ad"
| "update_row finished ad i j (h # hs) =
     (case get finished h of
        Inl e \<Rightarrow> Inl e
      | Inr v \<Rightarrow>
          (case index ad i of
             Inl e \<Rightarrow> Inl e
           | Inr r \<Rightarrow>
               (case row_set r j (str v) of
                  Inl e \<Rightarrow> Inl e
                | Inr r' \<Rightarrow> update_row finished (ad[i := r']) i (Suc j) hs)))"

fun update_loop ::
  "(nat \<times> (error + string option)) list \<Rightarrow> row list \<Rightarrow> nat \<Rightarrow> nat list list \<Rightarrow> error + row list"
where
  "update_loop finished ad i [] = Inr ad"
| "update_loop finished ad i (hs # rest) =
     (case update_row finished ad i 0 hs of
        Inl e \<Rightarrow> Inl e
      | Inr ad' \<Rightarrow> update_loop finished ad' (Suc i) rest)"

text \<open>Lines 157-186: the value is \<open>args.adapters\<close> as the trim phase finds it.\<close>

definition detect_phase :: "world \<Rightarrow> nat list \<Rightarrow> args \<Rightarrow> row list io" where
  "detect_phase w order a =
     io_bind
       (detect_loop (paired_end a) (auto_detect_adapter a) (fastqs a) (adapters a)
          [0..<length (fastqs a)] ([], []))
       (\<lambda>(tasks, ret_vals).
          lift (update_loop (arrivals order (detect_most_likely_adapter w) tasks)
                  (adapters a) 0 ret_vals))"

subsection \<open>main: the trim phase\<close>

text \<open>
  Lines 191-211.  \<open>args.paired_end\<close> does not change during the loop, so the model
  has one loop for each of its values: the tasks of a single-end batch are calls of
  \<open>trim_adapter_se\<close>, those of a paired-end batch calls of \<open>trim_adapter_pe\<close>.
  The arguments of a call are read left to right before it is submitted.
\<close>

fun submit_se ::
  "args \<Rightarrow> nat list \<Rightarrow> se_task list \<times> nat list \<Rightarrow> (se_task list \<times> nat list) io"
where
  "submit_se a [] st = ret st"
| "submit_se a (i # is) st =
     (case st of (tasks, ret_vals) \<Rightarrow>
        io_bind (lift (index (fastqs a) i)) (\<lambda>fs.
        io_bind (lift (index (adapters a) i)) (\<lambda>ad.
        io_bind (lift (index fs 0)) (\<lambda>f0.
        io_bind (lift (row_get ad 0)) (\<lambda>a0.
        io_bind (emit (Submit_trim_se (f0, a0, min_trim_len a, err_rate a, out_dir a))) (\<lambda>_.
        submit_se a is
          (tasks @ [(f0, a0, min_trim_len a, err_rate a, out_dir a)],
           ret_vals @ [length tasks])))))))"

fun submit_pe ::
  "args \<Rightarrow> nat list \<Rightarrow> pe_task list \<times> nat list \<Rightarrow> (pe_task list \<times> nat list) io"
where
  "submit_pe a [] st = ret st"
| "submit_pe a (i # is) st =
     (case st of (tasks, ret_vals) \<Rightarrow>
        io_bind (lift (index (fastqs a) i)) (\<lambda>fs.
        io_bind (lift (index (adapters a) i)) (\<lambda>ad.
        io_bind (lift (index fs 0)) (\<lambda>f0.
        io_bind (lift (index fs 1)) (\<lambda>f1.
        io_bind (lift (row_get ad 0)) (\<lambda>a0.
        io_bind (lift (row_get ad 1)) (\<lambda>a1.
        io_bind (emit (Submit_trim_pe (f0, f1, a0, a1, min_trim_len a, err_rate a, out_dir a)))
          (\<lambda>_.
        submit_pe a is
          (tasks @ [(f0, f1, a0, a1, min_trim_len a, err_rate a, out_dir a)],
           ret_vals @ [length tasks])))))))))"

text \<open>What a worker returns for a task: the value of the call, or its exception.\<close>

definition run_se :: "world \<Rightarrow> se_task \<Rightarrow> error + string" where
  "run_se w = (\<lambda>(f, a, m, e, d). snd (trim_adapter_se w f a m e d))"

definition run_pe :: "world \<Rightarrow> pe_task \<Rightarrow> error + string list" where
  "run_pe w = (\<lambda>(f1, f2, a1, a2, m, e, d). snd (trim_adapter_pe w f1 f2 a1 a2 m e d))"

text \<open>Lines 214-219: the rows of \<open>trimmed_fastqs\<close>, in the order of \<open>ret_vals\<close>.\<close>

fun collect_se :: "(nat \<times> (error + string)) list \<Rightarrow> nat list \<Rightarrow> error + string list list" where
  "collect_se finished [] = Inr []"
| "collect_se finished (h # hs) =
     (case get finished h of
        Inl e \<Rightarrow> Inl e
      | Inr v \<Rightarrow>
          (case collect_se finished hs of
             Inl e \<Rightarrow> Inl e
           | Inr rows \<Rightarrow> Inr ([v] # rows)))"

fun collect_pe ::
  "(nat \<times> (error + string list)) list \<Rightarrow> nat list \<Rightarrow> error + string list list"
where
  "collect_pe finished [] = Inr []"
| "collect_pe finished (h # hs) =
     (case get finished h of
        Inl e \<Rightarrow> Inl e
      | Inr v \<Rightarrow>
          (case collect_pe finished hs of
             Inl e \<Rightarrow> Inl e
           | Inr rows \<Rightarrow> Inr (v # rows)))"

text \<open>Lines 188-219: the value is \<open>trimmed_fastqs\<close>.\<close>

definition trim_phase :: "world \<Rightarrow> nat list \<Rightarrow> args \<Rightarrow> string list list io" where
  "trim_phase w order a =
     (if paired_end a then
        io_bind (submit_pe a [0..<length (fastqs a)] ([], []))
          (\<lambda>(tasks, ret_vals). lift (collect_pe (arrivals order (run_pe w) tasks) ret_vals))
      else
        io_bind (submit_se a [0..<length (fastqs a)] ([], []))
          (\<lambda>(tasks, ret_vals). lift (collect_se (arrivals order (run_se w) tasks) ret_vals)))"

subsection \<open>main\<close>

text \<open>Lines 150-153.\<close>

definition num_process :: "args \<Rightarrow> int" where
  "num_process a =
     (if paired_end a then min (2 * int (length (fastqs a))) (nth a)
      else min (int (length (fastqs a))) (nth a))"

text \<open>\<open>multiprocessing.Pool(n)\<close> raises \<open>ValueError\<close> for \<open>n < 1\<close>.\<close>

definition make_pool :: "int \<Rightarrow> unit io" where
  "make_pool n = (if n < 1 then lift (Inl ValueError) else emit (Pool n))"

definition do_mkdir :: "world \<Rightarrow> string \<Rightarrow> unit io" where
  "do_mkdir w d = ([Mkdir d], case mkdir_p w d of Some e \<Rightarrow> Inl e | None \<Rightarrow> Inr ())"

text \<open>
  Lines 140-230.  \<open>order1\<close> and \<open>order2\<close> are the completion orders of the tasks of
  the detection phase and of the trim phase.  The trace is what the main process did, up
  to the exception if one was raised.
\<close>

definition main :: "world \<Rightarrow> nat list \<Rightarrow> nat list \<Rightarrow> cmdline \<Rightarrow> unit io" where
  "main w order1 order2 c =
     io_bind (lift (parse_arguments w c)) (\<lambda>a.
     io_bind (do_mkdir w (out_dir a)) (\<lambda>_.
     io_bind (make_pool (num_process a)) (\<lambda>_.
     io_bind (detect_phase w order1 a) (\<lambda>ad.
     io_bind (trim_phase w order2 (a\<lparr>adapters := ad\<rparr>)) (\<lambda>trimmed_fastqs.
     emit (Write_tsv (path_join (out_dir a) (out_tsv a)) trimmed_fastqs))))))"

subsection \<open>Shapes, and names for what main reads\<close>

text \<open>The number of FASTQs of a row: 2 for paired end, 1 for single end (lines 77-82).\<close>

definition arity :: "bool \<Rightarrow> nat" where
  "arity pe = (if pe then 2 else 1)"

text \<open>The matrices that pass the checks of lines 72-85 (lemma \<open>check_dimension_iff\<close>).\<close>

definition valid_shape :: "bool \<Rightarrow> string list list \<Rightarrow> row list \<Rightarrow> bool" where
  "valid_shape pe fq ad \<longleftrightarrow>
     length ad = length fq \<and>
     (\<forall>k<length fq. length (fq ! k) = (if pe then 2 else 1) \<and> row_len (ad ! k) = (if pe then 2 else 1))"

text \<open>What indexing reads in a row: \<open>row_get a j\<close> is \<open>index (row_cells a) j\<close>.\<close>

fun row_cells :: "row \<Rightarrow> string list" where
  "row_cells (Cols xs) = xs"
| "row_cells (Tok s) = map (\<lambda>c. [c]) s"

text \<open>The rows for which detection is requested, among the indices \<open>is\<close>: on a row of
  the right length, the condition of lines 167-168 and 175-176 is that auto-detection
  is on and some adapter of the row is empty (lemma \<open>needs_detect_valid\<close>).\<close>

definition detect_rows :: "bool \<Rightarrow> row list \<Rightarrow> nat list \<Rightarrow> nat list" where
  "detect_rows auto ad is = filter (\<lambda>i. auto \<and> [] \<in> set (row_cells (ad ! i))) is"

text \<open>The FASTQs of those rows, in order: the detection tasks of a valid batch.\<close>

definition detect_tasks :: "args \<Rightarrow> string list" where
  "detect_tasks a =
     concat (map (\<lambda>i. fastqs a ! i)
       (detect_rows (auto_detect_adapter a) (adapters a) [0..<length (fastqs a)]))"

text \<open>The argument tuples of lines 197-202 and 205-210 for row \<open>i\<close> of a valid batch.\<close>

definition se_task_of :: "args \<Rightarrow> nat \<Rightarrow> se_task" where
  "se_task_of a i =
     (fastqs a ! i ! 0, row_cells (adapters a ! i) ! 0, min_trim_len a, err_rate a, out_dir a)"

definition pe_task_of :: "args \<Rightarrow> nat \<Rightarrow> pe_task" where
  "pe_task_of a i =
     (fastqs a ! i ! 0, fastqs a ! i ! 1,
      row_cells (adapters a ! i) ! 0, row_cells (adapters a ! i) ! 1,
      min_trim_len a, err_rate a, out_dir a)"

text \<open>
  The index lists that the loop of lines 160-179 stores in \<open>ret_vals\<close> when every row
  has \<open>ar\<close> FASTQs: the \<open>k\<close>-th row for which detection is requested holds the
  handles \<open>start + k * ar\<close> up to \<open>start + k * ar + ar - 1\<close>, whatever the row's index
  (lemma \<open>detect_phase_chunks\<close>).
\<close>

fun chunks :: "nat \<Rightarrow> nat \<Rightarrow> nat \<Rightarrow> nat list list" where
  "chunks ar start 0 = []"
| "chunks ar start (Suc g) = [start..<start + ar] # chunks ar (start + ar) g"

subsection \<open>A world and a command line for the closed examples\<close>

text \<open>
  One adapter TSV exists; the FASTQ TSV has one paired-end row, the adapter TSV gives
  the first mate an adapter and leaves the second empty.  Every external call succeeds,
  the detector finds an adapter in the first mate only, and \<open>strip_ext_fastq\<close> removes
  a trailing \<open>.fastq.gz\<close>.
\<close>

definition sample_world :: world where
  "sample_world =
     \<lparr> path_exists = (\<lambda>p. p = ''ad.tsv''),
       read_tsv = (\<lambda>p. if p = ''fq.tsv'' then Inr [[''a_1.fastq.gz'', ''a_2.fastq.gz'']]
                        else if p = ''ad.tsv'' then Inr [[''AGATCG'', '''']]
                        else Inl (External ''IOError'')),
       mkdir_p = (\<lambda>_. None),
       detect_most_likely_adapter =
         (\<lambda>f. Inr (if f = ''a_1.fastq.gz'' then Some ''CTGTCT'' else None)),
       strip_ext_fastq = (\<lambda>s. if endswith s ''.fastq.gz'' then take (length s - 9) s else s),
       run_shell_cmd = (\<lambda>_. None),
       os_link = (\<lambda>_ _. None) \<rparr>"

definition sample_cmdline :: cmdline where
  "sample_cmdline =
     \<lparr> cl_fastqs = [''fq.tsv''], cl_adapters = Some [''ad.tsv''],
       cl_auto_detect_adapter = True, cl_min_trim_len = 5, cl_err_rate = ''0.1'',
       cl_paired_end = True, cl_nth = 4, cl_out_dir = ''out'', cl_out_tsv = ''out.tsv'' \<rparr>"

text \<open>What \<open>parse_arguments\<close> returns for it.\<close>

definition sample_args :: args where
  "sample_args =
     \<lparr> fastqs = [[''a_1.fastq.gz'', ''a_2.fastq.gz'']], adapters = [Cols [''AGATCG'', '''']],
       auto_detect_adapter = True, min_trim_len = 5, err_rate = ''0.1'',
       paired_end = True, nth = 4, out_dir = ''out'', out_tsv = ''out.tsv'' \<rparr>"

text \<open>A paired-end batch of two rows: the first with one adapter missing, the second
  with both adapters given.\<close>

definition sample_args_pe2 :: args where
  "sample_args_pe2 =
     \<lparr> fastqs = [[''a_1.fastq.gz'', ''a_2.fastq.gz''], [''b_1.fastq.gz'', ''b_2.fastq.gz'']],
       adapters = [Cols [''AGATCG'', ''''], Cols [''AAA'', ''CCC'']],
       auto_detect_adapter = True, min_trim_len = 5, err_rate = ''0.1'',
       paired_end = True, nth = 4, out_dir = ''out'', out_tsv = ''out.tsv'' \<rparr>"

text \<open>A single-end batch of two rows without adapters, auto-detection on.\<close>

definition sample_args_se_auto :: args where
  "sample_args_se_auto =
     \<lparr> fastqs = [[''a.fastq.gz''], [''b.fastq.gz'']], adapters = [Cols [''''], Cols ['''']],
       auto_detect_adapter = True, min_trim_len = 5, err_rate = ''0.1'',
       paired_end = False, nth = 4, out_dir = ''out'', out_tsv = ''out.tsv'' \<rparr>"

text \<open>The single-end command line of two inline FASTQs, no adapters, no detection.\<close>

definition sample_cmdline_se :: cmdline where
  "sample_cmdline_se =
     \<lparr> cl_fastqs = [''a.fastq.gz'', ''b.fastq.gz''], cl_adapters = None,
       cl_auto_detect_adapter = False, cl_min_trim_len = 5, cl_err_rate = ''0.1'',
       cl_paired_end = False, cl_nth = 4, cl_out_dir = ''out'', cl_out_tsv = ''out.tsv'' \<rparr>"

text \<open>The sample world with every shell command failing, and with every detection failing.\<close>

definition failing_trim_world :: world where
  "failing_trim_world = sample_world\<lparr>run_shell_cmd := (\<lambda>_. Some (External ''exit 1''))\<rparr>"

definition failing_detect_world :: world where
  "failing_detect_world =
     sample_world\<lparr>detect_most_likely_adapter := (\<lambda>_. Inl (External ''no reads''))\<rparr>"

text \<open>The sample world with a FASTQ TSV of two rows, the second with one file only.\<close>

definition ragged_world :: world where
  "ragged_world =
     sample_world\<lparr>read_tsv :=
       (\<lambda>p. if p = ''fq.tsv''
            then Inr [[''a_1.fastq.gz'', ''a_2.fastq.gz''], [''b_1.fastq.gz'']]
            else read_tsv sample_world p)\<rparr>"

section \<open>Lemmas\<close>

subsection \<open>Traces: basic facts\<close>

lemma io_bind_lift_Inr [simp]: "io_bind (lift (Inr x)) f = f x"
  by (simp add: io_bind_def lift_def split: prod.splits)

lemma io_bind_lift_Inl [simp]: "io_bind (lift (Inl e)) f = ([], Inl e)"
  by (simp add: io_bind_def lift_def)

lemma io_bind_ret [simp]: "io_bind (ret x) f = f x"
  by (simp add: io_bind_def ret_def split: prod.splits)

lemma io_bind_emit [simp]: "io_bind (emit ev) f = (ev # fst (f ()), snd (f ()))"
  by (simp add: io_bind_def emit_def split: prod.splits)

lemma io_bind_pair_Inr [simp]: "io_bind (es, Inr x) f = (es @ fst (f x), snd (f x))"
  by (simp add: io_bind_def split: prod.splits)

lemma io_bind_pair_Inl [simp]: "io_bind (es, Inl e) f = (es, Inl e)"
  by (simp add: io_bind_def)

lemma fst_io_bind:
  "fst (io_bind m f) = (case snd m of Inl e \<Rightarrow> fst m | Inr x \<Rightarrow> fst m @ fst (f x))"
  by (cases m) (auto simp: io_bind_def split: sum.splits prod.splits)

lemma snd_io_bind:
  "snd (io_bind m f) = (case snd m of Inl e \<Rightarrow> Inl e | Inr x \<Rightarrow> snd (f x))"
  by (cases m) (auto simp: io_bind_def split: sum.splits prod.splits)

lemma fst_emit [simp]: "fst (emit ev) = [ev]"
  by (simp add: emit_def)

lemma snd_emit [simp]: "snd (emit ev) = Inr ()"
  by (simp add: emit_def)

lemma fst_lift [simp]: "fst (lift r) = []"
  by (simp add: lift_def)

lemma snd_lift [simp]: "snd (lift r) = r"
  by (simp add: lift_def)

lemma fst_ret [simp]: "fst (ret x) = []"
  by (simp add: ret_def)

lemma snd_ret [simp]: "snd (ret x) = Inr x"
  by (simp add: ret_def)

subsection \<open>Paths\<close>

lemma slash_notin_basename: "CHR ''/'' \<notin> set (basename p)"
  by (auto simp: basename_def dest: set_takeWhileD)

lemma basename_not_absolute: "\<not> startswith (basename p) ''/''"
proof
  assume "startswith (basename p) ''/''"
  then obtain r where "basename p = CHR ''/'' # r"
    by (auto simp: startswith_def prefix_def)
  then have "CHR ''/'' \<in> set (basename p)" by simp
  then show False by (simp add: slash_notin_basename)
qed

lemma path_join_basename:
  "path_join d (basename p) =
     (if d = [] \<or> endswith d ''/'' then d @ basename p else d @ ''/'' @ basename p)"
  by (simp add: path_join_def basename_not_absolute)

subsection \<open>Validation\<close>

lemma check_rows_rejects:
  assumes "\<exists>k<length fq. length (fq ! k) \<noteq> (if pe then 2 else 1)
             \<or> length (fq ! k) \<noteq> row_len (ad ! (i + k))"
      and "i + length fq \<le> length ad"
  shows "\<exists>msg\<in>{msg_mismatch, msg_need2, msg_need1}.
           check_rows pe ad i fq = Inl (ArgumentTypeError msg)"
  using assms
proof (induction fq arbitrary: i)
  case Nil
  then show ?case by simp
next
  case (Cons fs rest)
  from Cons.prems(1) obtain k where k: "k < length (fs # rest)"
    "length ((fs # rest) ! k) \<noteq> (if pe then 2 else 1)
       \<or> length ((fs # rest) ! k) \<noteq> row_len (ad ! (i + k))"
    by blast
  have idx: "index ad i = Inr (ad ! i)"
    using Cons.prems(2) by (simp add: index_def)
  show ?case
  proof (cases "length fs \<noteq> (if pe then 2 else 1) \<or> length fs \<noteq> row_len (ad ! i)")
    case True
    then show ?thesis by (cases pe) (auto simp: idx)
  next
    case False
    with k have "k \<noteq> 0" by (cases k) simp_all
    then obtain k' where k': "k = Suc k'" by (cases k) simp_all
    from k have "k' < length rest \<and> (length (rest ! k') \<noteq> (if pe then 2 else 1)
             \<or> length (rest ! k') \<noteq> row_len (ad ! (Suc i + k')))"
      by (simp add: k')
    then have "\<exists>k<length rest. length (rest ! k) \<noteq> (if pe then 2 else 1)
             \<or> length (rest ! k) \<noteq> row_len (ad ! (Suc i + k))"
      by blast
    moreover have "Suc i + length rest \<le> length ad" using Cons.prems(2) by simp
    ultimately have "\<exists>msg\<in>{msg_mismatch, msg_need2, msg_need1}.
           check_rows pe ad (Suc i) rest = Inl (ArgumentTypeError msg)"
      by (rule Cons.IH)
    with False show ?thesis by (cases pe) (simp_all add: idx)
  qed
qed

lemma check_rows_accepts:
  assumes "\<forall>k<length fq. length (fq ! k) = (if pe then 2 else 1)
             \<and> length (fq ! k) = row_len (ad ! (i + k))"
      and "i + length fq \<le> length ad"
  shows "check_rows pe ad i fq = Inr ()"
  using assms
proof (induction fq arbitrary: i)
  case Nil
  then show ?case by simp
next
  case (Cons fs rest)
  have idx: "index ad i = Inr (ad ! i)"
    using Cons.prems(2) by (simp add: index_def)
  have h0: "length fs = (if pe then 2 else 1) \<and> length fs = row_len (ad ! i)"
    using Cons.prems(1) [rule_format, of 0] by simp
  have "\<forall>k<length rest. length (rest ! k) = (if pe then 2 else 1)
             \<and> length (rest ! k) = row_len (ad ! (Suc i + k))"
  proof (intro allI impI)
    fix k assume "k < length rest"
    then show "length (rest ! k) = (if pe then 2 else 1)
             \<and> length (rest ! k) = row_len (ad ! (Suc i + k))"
      using Cons.prems(1) [rule_format, of "Suc k"] by simp
  qed
  moreover have "Suc i + length rest \<le> length ad" using Cons.prems(2) by simp
  ultimately have "check_rows pe ad (Suc i) rest = Inr ()" by (rule Cons.IH)
  with h0 show ?case by (simp add: idx)
qed

lemma check_dimension_iff:
  "check_dimension pe fq ad = Inr () \<longleftrightarrow> valid_shape pe fq ad"
proof
  assume ok: "check_dimension pe fq ad = Inr ()"
  then have len: "length ad = length fq"
    by (auto simp: check_dimension_def split: if_splits)
  have "\<not> (\<exists>k<length fq. length (fq ! k) \<noteq> (if pe then 2 else 1)
             \<or> length (fq ! k) \<noteq> row_len (ad ! (0 + k)))"
  proof
    assume "\<exists>k<length fq. length (fq ! k) \<noteq> (if pe then 2 else 1)
             \<or> length (fq ! k) \<noteq> row_len (ad ! (0 + k))"
    then have "\<exists>msg\<in>{msg_mismatch, msg_need2, msg_need1}.
           check_rows pe ad 0 fq = Inl (ArgumentTypeError msg)"
      by (rule check_rows_rejects) (simp add: len)
    with ok len show False by (auto simp: check_dimension_def)
  qed
  with len show "valid_shape pe fq ad" by (auto simp: valid_shape_def)
next
  assume v: "valid_shape pe fq ad"
  then have "check_rows pe ad 0 fq = Inr ()"
    by (intro check_rows_accepts) (auto simp: valid_shape_def)
  with v show "check_dimension pe fq ad = Inr ()"
    by (simp add: check_dimension_def valid_shape_def)
qed

lemma check_dimension_rejects:
  assumes "length ad \<noteq> length fq
           \<or> (\<exists>k<length fq. length (fq ! k) \<noteq> (if pe then 2 else 1)
                 \<or> length (fq ! k) \<noteq> row_len (ad ! k))"
  shows "\<exists>msg\<in>{msg_mismatch, msg_need2, msg_need1}.
           check_dimension pe fq ad = Inl (ArgumentTypeError msg)"
proof (cases "length ad = length fq")
  case False
  then show ?thesis by (simp add: check_dimension_def)
next
  case True
  with assms have "\<exists>k<length fq. length (fq ! k) \<noteq> (if pe then 2 else 1)
                 \<or> length (fq ! k) \<noteq> row_len (ad ! (0 + k))" by simp
  then have "\<exists>msg\<in>{msg_mismatch, msg_need2, msg_need1}.
           check_rows pe ad 0 fq = Inl (ArgumentTypeError msg)"
    by (rule check_rows_rejects) (simp add: True)
  with True show ?thesis by (simp add: check_dimension_def)
qed

lemma check_rows_need2:
  "length fs \<noteq> 2 \<Longrightarrow> check_rows True ad i (fs # rest) = Inl (ArgumentTypeError msg_need2)"
  by simp

lemma check_dimension_singletons:
  assumes "length ad = Suc (length fs)"
  shows "check_dimension True (map (\<lambda>f. [f]) (f # fs)) ad = Inl (ArgumentTypeError msg_need2)"
  using assms by (simp add: check_dimension_def)

subsection \<open>Events of the phases\<close>

lemma events_io_bind:
  assumes "\<forall>ev\<in>set (fst m). P ev" and "\<And>x. \<forall>ev\<in>set (fst (f x)). P ev"
  shows "\<forall>ev\<in>set (fst (io_bind m f)). P ev"
  using assms by (auto simp: fst_io_bind split: sum.splits)

lemma submit_pe_events:
  "\<forall>ev\<in>set (fst (submit_pe a is st)). is_Submit_trim_pe ev"
proof (induction "is" arbitrary: st)
  case Nil
  then show ?case by simp
next
  case (Cons i "is")
  show ?case
    by (cases st) (simp, intro events_io_bind; simp add: Cons.IH)
qed

lemma submit_se_events:
  "\<forall>ev\<in>set (fst (submit_se a is st)). is_Submit_trim_se ev"
proof (induction "is" arbitrary: st)
  case Nil
  then show ?case by simp
next
  case (Cons i "is")
  show ?case
    by (cases st) (simp, intro events_io_bind; simp add: Cons.IH)
qed

lemma detect_step_events:
  "\<forall>ev\<in>set (fst (detect_step pe auto fs a st)). is_Submit_detect ev"
  by (cases st; cases "needs_detect pe auto a"; cases "index fs 0"; cases "index fs 1")
     (simp_all add: detect_step_def apply_async_detect_def io_bind_def lift_def ret_def)

lemma detect_loop_events:
  "\<forall>ev\<in>set (fst (detect_loop pe auto fq ad is st)). is_Submit_detect ev"
proof (induction "is" arbitrary: st)
  case Nil
  then show ?case by simp
next
  case (Cons i "is")
  show ?case
    by (simp, intro events_io_bind; simp add: Cons.IH detect_step_events)
qed

lemma detect_phase_events:
  "\<forall>ev\<in>set (fst (detect_phase w order a)). is_Submit_detect ev"
  unfolding detect_phase_def
  by (intro events_io_bind; simp add: detect_loop_events split: prod.splits)

lemma trim_phase_events:
  "\<forall>ev\<in>set (fst (trim_phase w order a)). is_Submit_trim_se ev \<or> is_Submit_trim_pe ev"
proof (cases "paired_end a")
  case True
  have "\<forall>ev\<in>set (fst (trim_phase w order a)). is_Submit_trim_pe ev"
    unfolding trim_phase_def using True
    by (simp, intro events_io_bind; simp add: submit_pe_events split: prod.splits)
  then show ?thesis by blast
next
  case False
  have "\<forall>ev\<in>set (fst (trim_phase w order a)). is_Submit_trim_se ev"
    unfolding trim_phase_def using False
    by (simp, intro events_io_bind; simp add: submit_se_events split: prod.splits)
  then show ?thesis by blast
qed

subsection \<open>Unfolding main\<close>

lemma main_parse_error:
  "parse_arguments w c = Inl e \<Longrightarrow> main w o1 o2 c = ([], Inl e)"
  by (simp add: main_def)

lemma main_unfold:
  assumes "parse_arguments w c = Inr a"
  shows "main w o1 o2 c =
     (case mkdir_p w (out_dir a) of
        Some e \<Rightarrow> ([Mkdir (out_dir a)], Inl e)
      | None \<Rightarrow>
          if num_process a < 1 then ([Mkdir (out_dir a)], Inl ValueError)
          else
            (case snd (detect_phase w o1 a) of
               Inl e \<Rightarrow> (Mkdir (out_dir a) # Pool (num_process a) # fst (detect_phase w o1 a), Inl e)
             | Inr ad \<Rightarrow>
                 (case snd (trim_phase w o2 (a\<lparr>adapters := ad\<rparr>)) of
                    Inl e \<Rightarrow>
                      (Mkdir (out_dir a) # Pool (num_process a) # fst (detect_phase w o1 a)
                         @ fst (trim_phase w o2 (a\<lparr>adapters := ad\<rparr>)), Inl e)
                  | Inr trimmed \<Rightarrow>
                      (Mkdir (out_dir a) # Pool (num_process a) # fst (detect_phase w o1 a)
                         @ fst (trim_phase w o2 (a\<lparr>adapters := ad\<rparr>))
                         @ [Write_tsv (path_join (out_dir a) (out_tsv a)) trimmed], Inr ()))))"
  using assms
  by (auto simp: main_def do_mkdir_def make_pool_def io_bind_def lift_def emit_def
           split: option.splits sum.splits prod.splits)

subsection \<open>Rows, and the detection loop on a valid batch\<close>

lemma length_row_cells [simp]: "length (row_cells a) = row_len a"
  by (cases a) simp_all

lemma row_get_cells: "row_get a j = index (row_cells a) j"
  by (cases a) (simp_all add: index_def)

lemma length2E: "length xs = 2 \<Longrightarrow> \<exists>x y. xs = [x, y]"
  by (cases xs; cases "tl xs") auto

lemma length1E: "length xs = Suc 0 \<Longrightarrow> \<exists>x. xs = [x]"
  by (cases xs) auto

lemma upt_chain: "[a..<a + b] @ [a + b..<a + (b + c)] = [a..<a + (b + (c::nat))]"
  using upt_add_eq_append [of a "a + b" c] by (simp add: add.assoc)

lemma needs_detect_valid:
  assumes "row_len a = arity pe"
  shows "needs_detect pe auto a = Inr (auto \<and> [] \<in> set (row_cells a))"
proof (cases pe)
  case True
  with assms have "length (row_cells a) = 2" by (simp add: arity_def)
  then obtain x y where "row_cells a = [x, y]" using length2E [of "row_cells a"] by auto
  with True show ?thesis
    by (simp add: needs_detect_def row_get_cells index_def) auto
next
  case False
  with assms have "length (row_cells a) = Suc 0" by (simp add: arity_def)
  then obtain x where "row_cells a = [x]" using length1E [of "row_cells a"] by auto
  with False show ?thesis
    by (simp add: needs_detect_def row_get_cells index_def) auto
qed

lemma detect_step_valid:
  assumes "length fs = arity pe" and "row_len a = arity pe"
  shows "detect_step pe auto fs a (tasks, rv) =
           (if auto \<and> [] \<in> set (row_cells a)
            then (map Submit_detect fs,
                  Inr (tasks @ fs, rv @ [[length tasks ..< length tasks + length fs]]))
            else ([], Inr (tasks, rv)))"
proof (cases "auto \<and> [] \<in> set (row_cells a)")
  case False
  then show ?thesis
    by (simp add: detect_step_def needs_detect_valid [OF assms(2)] ret_def)
next
  case need: True
  have step: "detect_step pe auto fs a (tasks, rv) =
      (if pe then
            io_bind (lift (index fs 0)) (\<lambda>f0.
            io_bind (apply_async_detect tasks f0) (\<lambda>(tasks1, ret_val1).
            io_bind (lift (index fs 1)) (\<lambda>f1.
            io_bind (apply_async_detect tasks1 f1) (\<lambda>(tasks2, ret_val2).
            ret (tasks2, rv @ [[ret_val1, ret_val2]])))))
          else
            io_bind (lift (index fs 0)) (\<lambda>f0.
            io_bind (apply_async_detect tasks f0) (\<lambda>(tasks1, ret_val1).
            ret (tasks1, rv @ [[ret_val1]]))))"
    using need by (simp add: detect_step_def needs_detect_valid [OF assms(2)])
  show ?thesis
  proof (cases pe)
    case True
    with assms(1) obtain x y where fs: "fs = [x, y]"
      using length2E [of fs] by (auto simp: arity_def)
    have up: "[length tasks..<Suc (Suc (length tasks))] = [length tasks, Suc (length tasks)]"
      by (simp add: upt_rec)
    show ?thesis
      unfolding step using need True
      by (simp add: fs index_def apply_async_detect_def ret_def up)
  next
    case False
    with assms(1) obtain x where fs: "fs = [x]"
      using length1E [of fs] by (auto simp: arity_def)
    show ?thesis
      unfolding step using need False
      by (simp add: fs index_def apply_async_detect_def ret_def)
  qed
qed

lemma detect_loop_valid:
  assumes "\<forall>i\<in>set is. i < length fq \<and> i < length ad
             \<and> length (fq ! i) = arity pe \<and> row_len (ad ! i) = arity pe"
  shows "\<exists>hs. detect_loop pe auto fq ad is (tasks, rv) =
                (map Submit_detect (concat (map (\<lambda>i. fq ! i) (detect_rows auto ad is))),
                 Inr (tasks @ concat (map (\<lambda>i. fq ! i) (detect_rows auto ad is)), rv @ hs))
            \<and> length hs = length (detect_rows auto ad is)
            \<and> concat hs = [length tasks ..<
                  length tasks + length (concat (map (\<lambda>i. fq ! i) (detect_rows auto ad is)))]"
  using assms
proof (induction "is" arbitrary: tasks rv)
  case Nil
  then show ?case by (simp add: detect_rows_def ret_def)
next
  case (Cons i "is")
  have i: "i < length fq" "i < length ad" "length (fq ! i) = arity pe"
    "row_len (ad ! i) = arity pe"
    using Cons.prems by simp_all
  have rest: "\<forall>i\<in>set is. i < length fq \<and> i < length ad
             \<and> length (fq ! i) = arity pe \<and> row_len (ad ! i) = arity pe"
    using Cons.prems by simp
  let ?new = "concat (map (\<lambda>i. fq ! i) (detect_rows auto ad is))"
  show ?case
  proof (cases "auto \<and> [] \<in> set (row_cells (ad ! i))")
    case True
    from Cons.IH [OF rest, of "tasks @ fq ! i"
        "rv @ [[length tasks ..< length tasks + length (fq ! i)]]"]
    obtain hs where hs:
      "detect_loop pe auto fq ad is
         (tasks @ fq ! i, rv @ [[length tasks ..< length tasks + length (fq ! i)]]) =
         (map Submit_detect ?new,
          Inr ((tasks @ fq ! i) @ ?new,
               (rv @ [[length tasks ..< length tasks + length (fq ! i)]]) @ hs))"
      "length hs = length (detect_rows auto ad is)"
      "concat hs = [length (tasks @ fq ! i) ..< length (tasks @ fq ! i) + length ?new]"
      by blast
    have dr: "detect_rows auto ad (i # is) = i # detect_rows auto ad is"
      using True by (simp add: detect_rows_def)
    have step: "detect_step pe auto (fq ! i) (ad ! i) (tasks, rv) =
       (map Submit_detect (fq ! i),
        Inr (tasks @ fq ! i, rv @ [[length tasks ..< length tasks + length (fq ! i)]]))"
      using True by (simp add: detect_step_valid [OF i(3) i(4)])
    have run: "detect_loop pe auto fq ad (i # is) (tasks, rv) =
       (map Submit_detect (fq ! i @ ?new),
        Inr (tasks @ fq ! i @ ?new,
             rv @ ([length tasks ..< length tasks + length (fq ! i)] # hs)))"
      by (simp add: index_def i(1) i(2) step hs(1))
    have cc: "concat ([length tasks ..< length tasks + length (fq ! i)] # hs) =
        [length tasks ..< length tasks + length (fq ! i @ ?new)]"
      by (simp add: hs(3) upt_chain add.assoc)
    show ?thesis
      apply (rule exI [of _ "[length tasks ..< length tasks + length (fq ! i)] # hs"])
      using run cc hs(2) by (simp add: dr)
  next
    case False
    from Cons.IH [OF rest, of tasks rv]
    obtain hs where hs:
      "detect_loop pe auto fq ad is (tasks, rv) =
         (map Submit_detect ?new, Inr (tasks @ ?new, rv @ hs))"
      "length hs = length (detect_rows auto ad is)"
      "concat hs = [length tasks ..< length tasks + length ?new]"
      by blast
    have dr: "detect_rows auto ad (i # is) = detect_rows auto ad is"
      using False by (simp add: detect_rows_def)
    have step: "detect_step pe auto (fq ! i) (ad ! i) (tasks, rv) = ([], Inr (tasks, rv))"
      using False by (simp add: detect_step_valid [OF i(3) i(4)])
    have run: "detect_loop pe auto fq ad (i # is) (tasks, rv) =
       (map Submit_detect ?new, Inr (tasks @ ?new, rv @ hs))"
      by (simp add: index_def i(1) i(2) step hs(1))
    show ?thesis
      apply (rule exI [of _ hs])
      using run hs(2) hs(3) by (simp add: dr)
  qed
qed

subsection \<open>The pool\<close>

lemma map_of_tagged:
  "map_of (map (\<lambda>k. (k, g k)) ks) h = (if h \<in> set ks then Some (g h) else None)"
  by (induction ks) simp_all

lemma get_arrivals:
  "get (arrivals order run tasks) h =
     (if h \<in> set order \<and> h < length tasks then run (tasks ! h) else Inl TimeoutError)"
  by (simp add: get_def arrivals_def map_of_tagged)

lemma get_arrivals_Inr:
  assumes "get (arrivals order run tasks) h = Inr v"
  shows "h < length tasks \<and> run (tasks ! h) = Inr v"
  using assms by (simp add: get_arrivals split: if_splits)

subsection \<open>Storing the detected adapters\<close>

lemma row_set_len: "row_set r j v = Inr r' \<Longrightarrow> row_len r' = row_len r"
  by (cases r) (auto split: if_splits)

lemma update_row_frame:
  assumes "update_row finished ad i j hs = Inr ad'"
  shows "length ad' = length ad
       \<and> (\<forall>k. row_len (ad' ! k) = row_len (ad ! k))
       \<and> (\<forall>k. k \<noteq> i \<longrightarrow> ad' ! k = ad ! k)"
  using assms
proof (induction hs arbitrary: ad j)
  case Nil
  then show ?case by simp
next
  case (Cons h hs)
  from Cons.prems obtain v r r' where
    g: "get finished h = Inr v" and r: "index ad i = Inr r"
    and s: "row_set r j (str v) = Inr r'"
    and rest: "update_row finished (ad[i := r']) i (Suc j) hs = Inr ad'"
    by (auto split: sum.splits)
  from r have i: "i < length ad" "r = ad ! i"
    by (auto simp: index_def split: if_splits)
  note IH = Cons.IH [OF rest]
  have len: "row_len r' = row_len (ad ! i)" using row_set_len [OF s] i by simp
  have "row_len (ad' ! k) = row_len (ad ! k)" for k
  proof (cases "k = i")
    case True
    then show ?thesis using IH i len by simp
  next
    case False
    then show ?thesis using IH by simp
  qed
  moreover have "k \<noteq> i \<longrightarrow> ad' ! k = ad ! k" for k
    using IH by simp
  ultimately show ?case using IH by simp
qed

lemma update_loop_frame:
  assumes "update_loop finished ad i rv = Inr ad'"
  shows "length ad' = length ad
       \<and> (\<forall>k. row_len (ad' ! k) = row_len (ad ! k))
       \<and> (\<forall>k. k < i \<or> i + length rv \<le> k \<longrightarrow> ad' ! k = ad ! k)"
  using assms
proof (induction rv arbitrary: ad i)
  case Nil
  then show ?case by simp
next
  case (Cons hs rv)
  from Cons.prems obtain ad1 where
    row: "update_row finished ad i 0 hs = Inr ad1"
    and rest: "update_loop finished ad1 (Suc i) rv = Inr ad'"
    by (auto split: sum.splits)
  note F = update_row_frame [OF row]
  note IH = Cons.IH [OF rest]
  have "k < i \<or> i + length (hs # rv) \<le> k \<longrightarrow> ad' ! k = ad ! k" for k
  proof
    assume k: "k < i \<or> i + length (hs # rv) \<le> k"
    then have "k < Suc i \<or> Suc i + length rv \<le> k" by auto
    then have "ad' ! k = ad1 ! k" using IH by blast
    moreover from k have "k \<noteq> i" by auto
    then have "ad1 ! k = ad ! k" using F by blast
    ultimately show "ad' ! k = ad ! k" by simp
  qed
  then show ?case using F IH by simp
qed

lemma update_row_gets:
  assumes "update_row finished ad i j hs = Inr ad'"
  shows "\<forall>h\<in>set hs. \<exists>v. get finished h = Inr v"
  using assms
proof (induction hs arbitrary: ad j)
  case Nil
  then show ?case by simp
next
  case (Cons h hs)
  from Cons.prems obtain v r r' where
    g: "get finished h = Inr v"
    and rest: "update_row finished (ad[i := r']) i (Suc j) hs = Inr ad'"
    by (auto split: sum.splits)
  from Cons.IH [OF rest] g show ?case by simp
qed

lemma update_loop_gets:
  assumes "update_loop finished ad i rv = Inr ad'"
  shows "\<forall>h\<in>set (concat rv). \<exists>v. get finished h = Inr v"
  using assms
proof (induction rv arbitrary: ad i)
  case Nil
  then show ?case by simp
next
  case (Cons hs rv)
  from Cons.prems obtain ad1 where
    row: "update_row finished ad i 0 hs = Inr ad1"
    and rest: "update_loop finished ad1 (Suc i) rv = Inr ad'"
    by (auto split: sum.splits)
  from update_row_gets [OF row] Cons.IH [OF rest] show ?case by auto
qed

lemma update_row_cong:
  assumes "\<forall>h\<in>set hs. get f1 h = get f2 h"
  shows "update_row f1 ad i j hs = update_row f2 ad i j hs"
  using assms
proof (induction hs arbitrary: ad j)
  case Nil
  then show ?case by simp
next
  case (Cons h hs)
  have "get f1 h = get f2 h" using Cons.prems by simp
  moreover have "update_row f1 ad1 i j1 hs = update_row f2 ad1 i j1 hs" for ad1 j1
    using Cons.prems by (intro Cons.IH) simp
  ultimately show ?case by (simp split: sum.splits)
qed

lemma update_loop_cong:
  assumes "\<forall>h\<in>set (concat rv). get f1 h = get f2 h"
  shows "update_loop f1 ad i rv = update_loop f2 ad i rv"
  using assms
proof (induction rv arbitrary: ad i)
  case Nil
  then show ?case by simp
next
  case (Cons hs rv)
  have "update_row f1 ad i 0 hs = update_row f2 ad i 0 hs"
    using Cons.prems by (intro update_row_cong) simp
  moreover have "update_loop f1 ad1 i1 rv = update_loop f2 ad1 i1 rv" for ad1 i1
    using Cons.prems by (intro Cons.IH) simp
  ultimately show ?case by (simp split: sum.splits)
qed

subsection \<open>Collecting the trimmed paths\<close>

lemma collect_se_rows:
  assumes "collect_se finished hs = Inr rows"
  shows "list_all2 (\<lambda>h row. \<exists>v. get finished h = Inr v \<and> row = [v]) hs rows"
  using assms
proof (induction hs arbitrary: rows)
  case Nil
  then show ?case by simp
next
  case (Cons h hs)
  from Cons.prems obtain v rest where
    "get finished h = Inr v" "collect_se finished hs = Inr rest" "rows = [v] # rest"
    by (auto split: sum.splits)
  with Cons.IH show ?case by simp
qed

lemma collect_pe_rows:
  assumes "collect_pe finished hs = Inr rows"
  shows "list_all2 (\<lambda>h row. get finished h = Inr row) hs rows"
  using assms
proof (induction hs arbitrary: rows)
  case Nil
  then show ?case by simp
next
  case (Cons h hs)
  from Cons.prems obtain v rest where
    "get finished h = Inr v" "collect_pe finished hs = Inr rest" "rows = v # rest"
    by (auto split: sum.splits)
  with Cons.IH show ?case by simp
qed

lemma collect_se_cong:
  assumes "\<forall>h\<in>set hs. get f1 h = get f2 h"
  shows "collect_se f1 hs = collect_se f2 hs"
  using assms by (induction hs) (simp_all split: sum.splits)

lemma collect_pe_cong:
  assumes "\<forall>h\<in>set hs. get f1 h = get f2 h"
  shows "collect_pe f1 hs = collect_pe f2 hs"
  using assms by (induction hs) (simp_all split: sum.splits)

subsection \<open>Submission and the phases on a valid batch\<close>

lemma submit_se_valid:
  assumes "\<forall>i\<in>set is. i < length (fastqs a) \<and> i < length (adapters a)
             \<and> length (fastqs a ! i) = 1 \<and> row_len (adapters a ! i) = 1"
  shows "submit_se a is (tasks, rv) =
           (map Submit_trim_se (map (se_task_of a) is),
            Inr (tasks @ map (se_task_of a) is, rv @ [length tasks ..< length tasks + length is]))"
  using assms
proof (induction "is" arbitrary: tasks rv)
  case Nil
  then show ?case by (simp add: ret_def)
next
  case (Cons i "is")
  have i: "i < length (fastqs a)" "i < length (adapters a)"
    "length (fastqs a ! i) = 1" "row_len (adapters a ! i) = 1"
    using Cons.prems by simp_all
  have rest: "\<forall>i\<in>set is. i < length (fastqs a) \<and> i < length (adapters a)
             \<and> length (fastqs a ! i) = 1 \<and> row_len (adapters a ! i) = 1"
    using Cons.prems by simp
  have g: "index (fastqs a) i = Inr (fastqs a ! i)" "index (adapters a) i = Inr (adapters a ! i)"
    "index (fastqs a ! i) 0 = Inr (fastqs a ! i ! 0)"
    "row_get (adapters a ! i) 0 = Inr (row_cells (adapters a ! i) ! 0)"
    using i by (simp_all add: index_def row_get_cells)
  have step: "submit_se a (i # is) (tasks, rv) =
      (Submit_trim_se (se_task_of a i)
         # fst (submit_se a is (tasks @ [se_task_of a i], rv @ [length tasks])),
       snd (submit_se a is (tasks @ [se_task_of a i], rv @ [length tasks])))"
    by (simp add: g se_task_of_def)
  show ?case
    unfolding step Cons.IH [OF rest]
    by (simp del: upt_Suc add: upt_conv_Cons)
qed

lemma submit_pe_valid:
  assumes "\<forall>i\<in>set is. i < length (fastqs a) \<and> i < length (adapters a)
             \<and> length (fastqs a ! i) = 2 \<and> row_len (adapters a ! i) = 2"
  shows "submit_pe a is (tasks, rv) =
           (map Submit_trim_pe (map (pe_task_of a) is),
            Inr (tasks @ map (pe_task_of a) is, rv @ [length tasks ..< length tasks + length is]))"
  using assms
proof (induction "is" arbitrary: tasks rv)
  case Nil
  then show ?case by (simp add: ret_def)
next
  case (Cons i "is")
  have i: "i < length (fastqs a)" "i < length (adapters a)"
    "length (fastqs a ! i) = 2" "row_len (adapters a ! i) = 2"
    using Cons.prems by simp_all
  have rest: "\<forall>i\<in>set is. i < length (fastqs a) \<and> i < length (adapters a)
             \<and> length (fastqs a ! i) = 2 \<and> row_len (adapters a ! i) = 2"
    using Cons.prems by simp
  have g: "index (fastqs a) i = Inr (fastqs a ! i)" "index (adapters a) i = Inr (adapters a ! i)"
    "index (fastqs a ! i) 0 = Inr (fastqs a ! i ! 0)"
    "index (fastqs a ! i) (Suc 0) = Inr (fastqs a ! i ! Suc 0)"
    "row_get (adapters a ! i) 0 = Inr (row_cells (adapters a ! i) ! 0)"
    "row_get (adapters a ! i) (Suc 0) = Inr (row_cells (adapters a ! i) ! Suc 0)"
    using i by (simp_all add: index_def row_get_cells)
  have step: "submit_pe a (i # is) (tasks, rv) =
      (Submit_trim_pe (pe_task_of a i)
         # fst (submit_pe a is (tasks @ [pe_task_of a i], rv @ [length tasks])),
       snd (submit_pe a is (tasks @ [pe_task_of a i], rv @ [length tasks])))"
    by (simp add: g pe_task_of_def)
  show ?case
    unfolding step Cons.IH [OF rest]
    by (simp del: upt_Suc add: upt_conv_Cons)
qed

lemma valid_shape_rows:
  assumes "valid_shape pe fq ad"
  shows "\<forall>i\<in>set [0..<length fq]. i < length fq \<and> i < length ad
           \<and> length (fq ! i) = arity pe \<and> row_len (ad ! i) = arity pe"
  using assms by (simp add: valid_shape_def arity_def)

lemma trim_phase_valid:
  assumes "valid_shape (paired_end a) (fastqs a) (adapters a)"
  shows "trim_phase w order a =
     (if paired_end a then
        (map Submit_trim_pe (map (pe_task_of a) [0..<length (fastqs a)]),
         collect_pe (arrivals order (run_pe w) (map (pe_task_of a) [0..<length (fastqs a)]))
           [0..<length (fastqs a)])
      else
        (map Submit_trim_se (map (se_task_of a) [0..<length (fastqs a)]),
         collect_se (arrivals order (run_se w) (map (se_task_of a) [0..<length (fastqs a)]))
           [0..<length (fastqs a)]))"
proof (cases "paired_end a")
  case True
  have "\<forall>i\<in>set [0..<length (fastqs a)]. i < length (fastqs a) \<and> i < length (adapters a)
             \<and> length (fastqs a ! i) = 2 \<and> row_len (adapters a ! i) = 2"
    using valid_shape_rows [OF assms] True by (simp add: arity_def)
  from submit_pe_valid [OF this, of "[]" "[]"] True show ?thesis
    by (simp add: trim_phase_def lift_def)
next
  case False
  have "\<forall>i\<in>set [0..<length (fastqs a)]. i < length (fastqs a) \<and> i < length (adapters a)
             \<and> length (fastqs a ! i) = 1 \<and> row_len (adapters a ! i) = 1"
    using valid_shape_rows [OF assms] False by (simp add: arity_def)
  from submit_se_valid [OF this, of "[]" "[]"] False show ?thesis
    by (simp add: trim_phase_def lift_def)
qed

lemma detect_phase_valid:
  assumes "valid_shape (paired_end a) (fastqs a) (adapters a)"
  shows "\<exists>rv. length rv = length (detect_rows (auto_detect_adapter a) (adapters a)
                                    [0..<length (fastqs a)])
           \<and> concat rv = [0..<length (detect_tasks a)]
           \<and> (\<forall>order w. detect_phase w order a =
                 (map Submit_detect (detect_tasks a),
                  update_loop (arrivals order (detect_most_likely_adapter w) (detect_tasks a))
                    (adapters a) 0 rv))"
proof -
  from detect_loop_valid [OF valid_shape_rows [OF assms], of "auto_detect_adapter a" "[]" "[]"]
  obtain hs where hs:
    "detect_loop (paired_end a) (auto_detect_adapter a) (fastqs a) (adapters a)
       [0..<length (fastqs a)] ([], []) =
       (map Submit_detect (detect_tasks a), Inr (detect_tasks a, hs))"
    "length hs = length (detect_rows (auto_detect_adapter a) (adapters a) [0..<length (fastqs a)])"
    "concat hs = [0..<length (detect_tasks a)]"
    by (auto simp: detect_tasks_def)
  have "detect_phase w order a =
                 (map Submit_detect (detect_tasks a),
                  update_loop (arrivals order (detect_most_likely_adapter w) (detect_tasks a))
                    (adapters a) 0 hs)" for order w
    by (simp add: detect_phase_def hs(1) lift_def)
  with hs(2,3) show ?thesis by blast
qed

lemma parse_arguments_valid:
  assumes "parse_arguments w c = Inr a"
  shows "valid_shape (paired_end a) (fastqs a) (adapters a)"
proof -
  from assms obtain fq ad0 where
    "check_dimension (cl_paired_end c) fq (fill_adapters fq ad0) = Inr ()"
    and a: "fastqs a = fq" "adapters a = fill_adapters fq ad0" "paired_end a = cl_paired_end c"
    by (auto simp: parse_arguments_def Let_def split: sum.splits prod.splits)
  then show ?thesis by (simp add: check_dimension_iff)
qed

subsection \<open>The runs of main, case by case\<close>

lemma main_cases [consumes 1, case_names mkdir_fail pool_fail detect_fail trim_fail ok]:
  assumes "parse_arguments w c = Inr a"
  obtains
    e where "mkdir_p w (out_dir a) = Some e"
      "main w o1 o2 c = ([Mkdir (out_dir a)], Inl e)"
  | "mkdir_p w (out_dir a) = None" "num_process a < 1"
      "main w o1 o2 c = ([Mkdir (out_dir a)], Inl ValueError)"
  | e where "mkdir_p w (out_dir a) = None" "1 \<le> num_process a"
      "snd (detect_phase w o1 a) = Inl e"
      "main w o1 o2 c =
         (Mkdir (out_dir a) # Pool (num_process a) # fst (detect_phase w o1 a), Inl e)"
  | ad e where "mkdir_p w (out_dir a) = None" "1 \<le> num_process a"
      "snd (detect_phase w o1 a) = Inr ad"
      "snd (trim_phase w o2 (a\<lparr>adapters := ad\<rparr>)) = Inl e"
      "main w o1 o2 c =
         (Mkdir (out_dir a) # Pool (num_process a) # fst (detect_phase w o1 a)
            @ fst (trim_phase w o2 (a\<lparr>adapters := ad\<rparr>)), Inl e)"
  | ad trimmed where "mkdir_p w (out_dir a) = None" "1 \<le> num_process a"
      "snd (detect_phase w o1 a) = Inr ad"
      "snd (trim_phase w o2 (a\<lparr>adapters := ad\<rparr>)) = Inr trimmed"
      "main w o1 o2 c =
         (Mkdir (out_dir a) # Pool (num_process a) # fst (detect_phase w o1 a)
            @ fst (trim_phase w o2 (a\<lparr>adapters := ad\<rparr>))
            @ [Write_tsv (path_join (out_dir a) (out_tsv a)) trimmed], Inr ())"
proof (cases "mkdir_p w (out_dir a)")
  case (Some e)
  then show ?thesis using that(1) by (simp add: main_unfold [OF assms])
next
  case None
  show ?thesis
  proof (cases "num_process a < 1")
    case True
    with None show ?thesis using that(2) by (simp add: main_unfold [OF assms])
  next
    case False
    show ?thesis
    proof (cases "snd (detect_phase w o1 a)")
      case (Inl e)
      with None False show ?thesis using that(3) by (simp add: main_unfold [OF assms])
    next
      case (Inr ad)
      show ?thesis
      proof (cases "snd (trim_phase w o2 (a\<lparr>adapters := ad\<rparr>))")
        case (Inl e)
        with None False Inr show ?thesis using that(4) by (simp add: main_unfold [OF assms])
      next
        case inr: (Inr trimmed)
        with None False Inr show ?thesis using that(5) by (simp add: main_unfold [OF assms])
      qed
    qed
  qed
qed

lemma no_pool_in_detect: "filter is_Pool (fst (detect_phase w o1 a)) = []"
  using detect_phase_events [of w o1 a] by (auto simp: filter_empty_conv)

lemma no_pool_in_trim: "filter is_Pool (fst (trim_phase w o2 a)) = []"
  using trim_phase_events [of w o2 a] by (auto simp: filter_empty_conv)

subsection \<open>The text of a detection result\<close>

lemma str_empty_iff: "str v = [] \<longleftrightarrow> v = Some []"
  by (cases v) simp_all

subsection \<open>The detection phase on a valid batch\<close>

lemma filter_upt_bound:
  assumes "\<forall>k<n. P k \<longrightarrow> k < i"
  shows "length (filter P [0..<n]) \<le> i"
proof -
  have "set (filter P [0..<n]) \<subseteq> {..<i}" using assms by auto
  then have "card (set (filter P [0..<n])) \<le> card {..<i}"
    by (intro card_mono) simp_all
  moreover have "card (set (filter P [0..<n])) = length (filter P [0..<n])"
    by (intro distinct_card) simp
  ultimately show ?thesis by simp
qed

lemma valid_shape_arity:
  "valid_shape pe fq ad \<Longrightarrow> k < length fq \<Longrightarrow>
     length (fq ! k) = arity pe \<and> row_len (ad ! k) = arity pe"
  by (simp add: valid_shape_def arity_def)

lemma valid_shape_update:
  assumes "valid_shape pe fq ad" and "length ad' = length ad"
    and "\<forall>k. row_len (ad' ! k) = row_len (ad ! k)"
  shows "valid_shape pe fq ad'"
  using assms by (simp add: valid_shape_def)
lemma detect_phase_frame:
  assumes "valid_shape (paired_end a) (fastqs a) (adapters a)"
    and "snd (detect_phase w order a) = Inr ad'"
  shows "length ad' = length (adapters a)"
    and "\<forall>k. row_len (ad' ! k) = row_len (adapters a ! k)"
    and "\<forall>k. length (detect_rows (auto_detect_adapter a) (adapters a)
                               [0..<length (fastqs a)]) \<le> k \<longrightarrow> ad' ! k = adapters a ! k"
proof -
  from detect_phase_valid [OF assms(1)] obtain rv where
    rv: "length rv = length (detect_rows (auto_detect_adapter a) (adapters a)
                               [0..<length (fastqs a)])"
    and ph: "detect_phase w order a =
                 (map Submit_detect (detect_tasks a),
                  update_loop (arrivals order (detect_most_likely_adapter w) (detect_tasks a))
                    (adapters a) 0 rv)"
    by blast
  from assms(2) have up: "update_loop (arrivals order (detect_most_likely_adapter w) (detect_tasks a))
                    (adapters a) 0 rv = Inr ad'" unfolding ph by simp
  note F = update_loop_frame [OF up]
  from F show "length ad' = length (adapters a)" by (rule conjunct1)
  from F show "\<forall>k. row_len (ad' ! k) = row_len (adapters a ! k)"
    by (rule conjunct2 [THEN conjunct1])
  from F have "\<forall>k. k < 0 \<or> 0 + length rv \<le> k \<longrightarrow> ad' ! k = adapters a ! k"
    by (rule conjunct2 [THEN conjunct2])
  then show "\<forall>k. length (detect_rows (auto_detect_adapter a) (adapters a)
                               [0..<length (fastqs a)]) \<le> k \<longrightarrow> ad' ! k = adapters a ! k"
    unfolding rv [symmetric] by simp
qed
lemma trim_phase_events_valid:
  assumes "valid_shape (paired_end a) (fastqs a) ad'"
  shows "fst (trim_phase w order2 (a\<lparr>adapters := ad'\<rparr>)) =
                 (if paired_end a
                  then map Submit_trim_pe (map (pe_task_of (a\<lparr>adapters := ad'\<rparr>))
                         [0..<length (fastqs a)])
                  else map Submit_trim_se (map (se_task_of (a\<lparr>adapters := ad'\<rparr>))
                         [0..<length (fastqs a)]))"
proof -
  have "valid_shape (paired_end (a\<lparr>adapters := ad'\<rparr>)) (fastqs (a\<lparr>adapters := ad'\<rparr>))
          (adapters (a\<lparr>adapters := ad'\<rparr>))"
    using assms by simp
  from trim_phase_valid [OF this, of w order2]
  show ?thesis by simp
qed

subsection \<open>What the trim tasks return\<close>

lemma run_se_value:
  assumes "run_se w (f, ad, m, e, d) = Inr v"
  shows "v = (if ad \<noteq> [] then path_join d (basename (strip_ext_fastq w f)) @ ''.trim.fastq.gz''
              else path_join d (basename f))"
  using assms
  by (cases "ad = []")
     (simp_all add: run_se_def trim_adapter_se_def Let_def split: option.splits)

lemma run_pe_value:
  assumes "run_pe w (f1, f2, a1, a2, m, e, d) = Inr v"
  shows "v = (if a1 \<noteq> [] \<and> a2 \<noteq> []
              then [path_join d (basename (strip_ext_fastq w f1)) @ ''.trim.fastq.gz'',
                    path_join d (basename (strip_ext_fastq w f2)) @ ''.trim.fastq.gz'']
              else [path_join d (basename f1), path_join d (basename f2)])"
proof (cases "a1 \<noteq> [] \<and> a2 \<noteq> []")
  case True
  with assms show ?thesis
    by (simp add: run_pe_def trim_adapter_pe_def Let_def split: option.splits)
next
  case False
  with assms show ?thesis
    by (auto simp: run_pe_def trim_adapter_pe_def Let_def split: option.splits)
qed

subsection \<open>The trim phase on a valid batch\<close>

lemma list_all2_upt_nth:
  assumes "list_all2 P [0..<n] rows"
  shows "length rows = n \<and> (\<forall>i<n. P i (rows ! i))"
proof -
  from assms have len: "length rows = n" by (simp add: list_all2_lengthD [symmetric])
  have "P i (rows ! i)" if "i < n" for i
    using list_all2_nthD [OF assms, of i] that by simp
  with len show ?thesis by blast
qed

lemma trim_phase_rows_se:
  assumes v: "valid_shape (paired_end a) (fastqs a) (adapters a)"
    and se: "\<not> paired_end a"
    and run: "snd (trim_phase w order a) = Inr rows"
  shows "length rows = length (fastqs a)
       \<and> (\<forall>i<length (fastqs a). \<exists>p. run_se w (se_task_of a i) = Inr p \<and> rows ! i = [p])"
proof -
  let ?n = "length (fastqs a)"
  let ?T = "map (se_task_of a) [0..<?n]"
  from run se have c: "collect_se (arrivals order (run_se w) ?T) [0..<?n] = Inr rows"
    by (simp add: trim_phase_valid [OF v])
  note A = list_all2_upt_nth [OF collect_se_rows [OF c]]
  have "\<exists>p. run_se w (se_task_of a i) = Inr p \<and> rows ! i = [p]" if i: "i < ?n" for i
  proof -
    from A i obtain p where g: "get (arrivals order (run_se w) ?T) i = Inr p"
      and r: "rows ! i = [p]" by blast
    from get_arrivals_Inr [OF g] i have "run_se w (se_task_of a i) = Inr p" by simp
    with r show ?thesis by blast
  qed
  with A show ?thesis by blast
qed

lemma trim_phase_rows_pe:
  assumes v: "valid_shape (paired_end a) (fastqs a) (adapters a)"
    and pe: "paired_end a"
    and run: "snd (trim_phase w order a) = Inr rows"
  shows "length rows = length (fastqs a)
       \<and> (\<forall>i<length (fastqs a). run_pe w (pe_task_of a i) = Inr (rows ! i))"
proof -
  let ?n = "length (fastqs a)"
  let ?T = "map (pe_task_of a) [0..<?n]"
  from run pe have c: "collect_pe (arrivals order (run_pe w) ?T) [0..<?n] = Inr rows"
    by (simp add: trim_phase_valid [OF v])
  note A = list_all2_upt_nth [OF collect_pe_rows [OF c]]
  have "run_pe w (pe_task_of a i) = Inr (rows ! i)" if i: "i < ?n" for i
  proof -
    from A i have g: "get (arrivals order (run_pe w) ?T) i = Inr (rows ! i)" by blast
    from get_arrivals_Inr [OF g] i show ?thesis by simp
  qed
  with A show ?thesis by blast
qed

text \<open>Two runs of the trim phase: when one ends without error, the other, if it ends
  without error or if every task completes in it, is the same run.\<close>

lemma get_agree:
  assumes g: "get (arrivals o1 run tasks) h = Inr v"
    and o: "(\<exists>v'. get (arrivals o2 run tasks) h = Inr v') \<or> h \<in> set o2"
  shows "get (arrivals o2 run tasks) h = get (arrivals o1 run tasks) h"
proof -
  from get_arrivals_Inr [OF g] have h: "h < length tasks" and r: "run (tasks ! h) = Inr v"
    by simp_all
  from o show ?thesis
  proof
    assume "\<exists>v'. get (arrivals o2 run tasks) h = Inr v'"
    then obtain v' where g': "get (arrivals o2 run tasks) h = Inr v'" by blast
    from get_arrivals_Inr [OF g'] r have "v' = v" by simp
    with g g' show ?thesis by simp
  next
    assume "h \<in> set o2"
    with h r g show ?thesis by (simp add: get_arrivals)
  qed
qed

lemma collect_se_gets:
  assumes "collect_se finished hs = Inr rows"
  shows "\<forall>h\<in>set hs. \<exists>v. get finished h = Inr v"
  using assms
proof (induction hs arbitrary: rows)
  case Nil
  then show ?case by simp
next
  case (Cons h hs)
  from Cons.prems obtain v rest where
    "get finished h = Inr v" "collect_se finished hs = Inr rest"
    by (auto split: sum.splits)
  with Cons.IH show ?case by auto
qed

lemma collect_pe_gets:
  assumes "collect_pe finished hs = Inr rows"
  shows "\<forall>h\<in>set hs. \<exists>v. get finished h = Inr v"
  using assms
proof (induction hs arbitrary: rows)
  case Nil
  then show ?case by simp
next
  case (Cons h hs)
  from Cons.prems obtain v rest where
    "get finished h = Inr v" "collect_pe finished hs = Inr rest"
    by (auto split: sum.splits)
  with Cons.IH show ?case by auto
qed

lemma trim_phase_agree:
  assumes v: "valid_shape (paired_end a) (fastqs a) (adapters a)"
    and run: "snd (trim_phase w o2 a) = Inr rows"
    and other: "(\<exists>rows'. snd (trim_phase w o2' a) = Inr rows')
                \<or> set [0..<length (fastqs a)] \<subseteq> set o2'"
  shows "trim_phase w o2' a = trim_phase w o2 a"
proof (cases "paired_end a")
  case True
  let ?n = "length (fastqs a)"
  let ?T = "map (pe_task_of a) [0..<?n]"
  from run True have c: "collect_pe (arrivals o2 (run_pe w) ?T) [0..<?n] = Inr rows"
    by (simp add: trim_phase_valid [OF v])
  have "get (arrivals o2' (run_pe w) ?T) h = get (arrivals o2 (run_pe w) ?T) h"
    if h: "h \<in> set [0..<?n]" for h
  proof -
    from collect_pe_gets [OF c] h obtain p where
      g: "get (arrivals o2 (run_pe w) ?T) h = Inr p" by blast
    from other have "(\<exists>v'. get (arrivals o2' (run_pe w) ?T) h = Inr v') \<or> h \<in> set o2'"
    proof
      assume "\<exists>rows'. snd (trim_phase w o2' a) = Inr rows'"
      then obtain rows' where "snd (trim_phase w o2' a) = Inr rows'" by blast
      with True have "collect_pe (arrivals o2' (run_pe w) ?T) [0..<?n] = Inr rows'"
        by (simp add: trim_phase_valid [OF v])
      from collect_pe_gets [OF this] h show ?thesis by blast
    next
      assume "set [0..<?n] \<subseteq> set o2'"
      with h show ?thesis by blast
    qed
    with g show ?thesis by (rule get_agree)
  qed
  then have "collect_pe (arrivals o2' (run_pe w) ?T) [0..<?n]
             = collect_pe (arrivals o2 (run_pe w) ?T) [0..<?n]"
    by (intro collect_pe_cong) blast
  with True show ?thesis by (simp add: trim_phase_valid [OF v])
next
  case False
  let ?n = "length (fastqs a)"
  let ?T = "map (se_task_of a) [0..<?n]"
  from run False have c: "collect_se (arrivals o2 (run_se w) ?T) [0..<?n] = Inr rows"
    by (simp add: trim_phase_valid [OF v])
  have "get (arrivals o2' (run_se w) ?T) h = get (arrivals o2 (run_se w) ?T) h"
    if h: "h \<in> set [0..<?n]" for h
  proof -
    from collect_se_gets [OF c] h obtain p where
      g: "get (arrivals o2 (run_se w) ?T) h = Inr p" by blast
    from other have "(\<exists>v'. get (arrivals o2' (run_se w) ?T) h = Inr v') \<or> h \<in> set o2'"
    proof
      assume "\<exists>rows'. snd (trim_phase w o2' a) = Inr rows'"
      then obtain rows' where "snd (trim_phase w o2' a) = Inr rows'" by blast
      with False have "collect_se (arrivals o2' (run_se w) ?T) [0..<?n] = Inr rows'"
        by (simp add: trim_phase_valid [OF v])
      from collect_se_gets [OF this] h show ?thesis by blast
    next
      assume "set [0..<?n] \<subseteq> set o2'"
      with h show ?thesis by blast
    qed
    with g show ?thesis by (rule get_agree)
  qed
  then have "collect_se (arrivals o2' (run_se w) ?T) [0..<?n]
             = collect_se (arrivals o2 (run_se w) ?T) [0..<?n]"
    by (intro collect_se_cong) blast
  with False show ?thesis by (simp add: trim_phase_valid [OF v])
qed

lemma trim_rows_paths:
  assumes v: "valid_shape (paired_end a) (fastqs a) (adapters a)"
    and run: "snd (trim_phase w order a) = Inr rows"
    and i: "i < length (fastqs a)"
  shows "length (rows ! i) = arity (paired_end a)
       \<and> (\<forall>j<arity (paired_end a).
             rows ! i ! j \<in> {path_join (out_dir a) (basename (fastqs a ! i ! j)),
                              path_join (out_dir a) (basename (strip_ext_fastq w (fastqs a ! i ! j)))
                                @ ''.trim.fastq.gz''})"
proof (cases "paired_end a")
  case False
  from trim_phase_rows_se [OF v False run] i obtain p where
    p: "run_se w (se_task_of a i) = Inr p" and r: "rows ! i = [p]" by blast
  from p have "p = (if row_cells (adapters a ! i) ! 0 \<noteq> []
                    then path_join (out_dir a) (basename (strip_ext_fastq w (fastqs a ! i ! 0)))
                           @ ''.trim.fastq.gz''
                    else path_join (out_dir a) (basename (fastqs a ! i ! 0)))"
    unfolding se_task_of_def by (rule run_se_value)
  then have "p \<in> {path_join (out_dir a) (basename (fastqs a ! i ! 0)),
                   path_join (out_dir a) (basename (strip_ext_fastq w (fastqs a ! i ! 0)))
                     @ ''.trim.fastq.gz''}"
    by (cases "row_cells (adapters a ! i) ! 0 = []") simp_all
  with r False show ?thesis by (simp add: arity_def)
next
  case True
  from trim_phase_rows_pe [OF v True run] i
  have p: "run_pe w (pe_task_of a i) = Inr (rows ! i)" by blast
  let ?t = "\<lambda>j. path_join (out_dir a) (basename (strip_ext_fastq w (fastqs a ! i ! j)))
                  @ ''.trim.fastq.gz''"
  let ?l = "\<lambda>j. path_join (out_dir a) (basename (fastqs a ! i ! j))"
  from p have "rows ! i =
      (if row_cells (adapters a ! i) ! 0 \<noteq> [] \<and> row_cells (adapters a ! i) ! 1 \<noteq> []
       then [?t 0, ?t 1] else [?l 0, ?l 1])"
    unfolding pe_task_of_def by (rule run_pe_value)
  then have r: "rows ! i = [?t 0, ?t 1] \<or> rows ! i = [?l 0, ?l 1]"
    by (cases "row_cells (adapters a ! i) ! 0 \<noteq> [] \<and> row_cells (adapters a ! i) ! 1 \<noteq> []")
       simp_all
  have "rows ! i ! j \<in> {?l j, ?t j}" if "j < 2" for j
  proof -
    from that have "j = 0 \<or> j = 1" by (simp add: less_2_cases_iff)
    with r show ?thesis by auto
  qed
  moreover from r have "length (rows ! i) = 2" by auto
  ultimately show ?thesis using True by (simp add: arity_def)
qed

subsection \<open>The detection phase: what success means, and two runs\<close>

lemma length_concat_le:
  assumes "\<forall>x\<in>set xs. length (f x) \<le> k"
  shows "length (concat (map f xs)) \<le> k * length xs"
  using assms by (induction xs) auto

lemma length_detect_tasks:
  assumes v: "valid_shape (paired_end a) (fastqs a) (adapters a)"
  shows "length (detect_tasks a) \<le> arity (paired_end a) * length (fastqs a)"
proof -
  let ?G = "detect_rows (auto_detect_adapter a) (adapters a) [0..<length (fastqs a)]"
  have "\<forall>i\<in>set ?G. length (fastqs a ! i) \<le> arity (paired_end a)"
    using valid_shape_arity [OF v] by (simp add: detect_rows_def)
  then have "length (detect_tasks a) \<le> arity (paired_end a) * length ?G"
    unfolding detect_tasks_def by (rule length_concat_le)
  moreover have "length ?G \<le> length (fastqs a)"
    unfolding detect_rows_def using length_filter_le [of _ "[0..<length (fastqs a)]"] by simp
  then have "arity (paired_end a) * length ?G \<le> arity (paired_end a) * length (fastqs a)"
    by (rule mult_le_mono2)
  ultimately show ?thesis by (rule order_trans)
qed

lemma detect_phase_tasks_ok:
  assumes v: "valid_shape (paired_end a) (fastqs a) (adapters a)"
    and run: "snd (detect_phase w order a) = Inr ad'"
  shows "\<forall>f\<in>set (detect_tasks a). \<exists>r. detect_most_likely_adapter w f = Inr r"
proof
  fix f assume "f \<in> set (detect_tasks a)"
  then obtain h where h: "h < length (detect_tasks a)" and f: "f = detect_tasks a ! h"
    by (auto simp: in_set_conv_nth)
  from detect_phase_valid [OF v] obtain rv where
    rv: "concat rv = [0..<length (detect_tasks a)]"
    and ph: "detect_phase w order a =
                 (map Submit_detect (detect_tasks a),
                  update_loop (arrivals order (detect_most_likely_adapter w) (detect_tasks a))
                    (adapters a) 0 rv)"
    by blast
  from run have up: "update_loop (arrivals order (detect_most_likely_adapter w) (detect_tasks a))
                    (adapters a) 0 rv = Inr ad'" unfolding ph by simp
  from h have "h \<in> set (concat rv)" unfolding rv by simp
  with update_loop_gets [OF up] obtain r where
    "get (arrivals order (detect_most_likely_adapter w) (detect_tasks a)) h = Inr r" by blast
  from get_arrivals_Inr [OF this] f show "\<exists>r. detect_most_likely_adapter w f = Inr r"
    by blast
qed

lemma detect_phase_agree:
  assumes v: "valid_shape (paired_end a) (fastqs a) (adapters a)"
    and run: "snd (detect_phase w o1 a) = Inr ad'"
    and other: "(\<exists>ad''. snd (detect_phase w o1' a) = Inr ad'')
                \<or> set [0..<2 * length (fastqs a)] \<subseteq> set o1'"
  shows "detect_phase w o1' a = detect_phase w o1 a"
proof -
  let ?D = "detect_tasks a"
  let ?F = "\<lambda>ord. arrivals ord (detect_most_likely_adapter w) ?D"
  from detect_phase_valid [OF v] obtain rv where
    rv: "concat rv = [0..<length ?D]"
    and ph: "\<And>order. detect_phase w order a =
                 (map Submit_detect ?D, update_loop (?F order) (adapters a) 0 rv)"
    by blast
  from run have up: "update_loop (?F o1) (adapters a) 0 rv = Inr ad'"
    unfolding ph by simp
  have "get (?F o1) h = get (?F o1') h" if h: "h \<in> set (concat rv)" for h
  proof -
    from update_loop_gets [OF up] h obtain r where g: "get (?F o1) h = Inr r" by blast
    from other have "(\<exists>v'. get (?F o1') h = Inr v') \<or> h \<in> set o1'"
    proof
      assume "\<exists>ad''. snd (detect_phase w o1' a) = Inr ad''"
      then obtain ad'' where "update_loop (?F o1') (adapters a) 0 rv = Inr ad''"
        unfolding ph by auto
      from update_loop_gets [OF this] h show ?thesis by blast
    next
      assume c: "set [0..<2 * length (fastqs a)] \<subseteq> set o1'"
      from h have "h < length ?D" unfolding rv by simp
      also have "\<dots> \<le> arity (paired_end a) * length (fastqs a)"
        by (rule length_detect_tasks [OF v])
      also have "\<dots> \<le> 2 * length (fastqs a)" by (simp add: arity_def)
      finally have "h \<in> set [0..<2 * length (fastqs a)]" by simp
      with c show ?thesis by blast
    qed
    with g have "get (?F o1') h = get (?F o1) h" by (rule get_agree)
    then show ?thesis by simp
  qed
  then have "update_loop (?F o1) (adapters a) 0 rv = update_loop (?F o1') (adapters a) 0 rv"
    by (intro update_loop_cong) blast
  then show ?thesis unfolding ph by simp
qed

subsection \<open>Facts about whole runs\<close>

lemma detect_phase_only_detect:
  "filter is_Write_tsv (fst (detect_phase w o1 a)) = []"
  "filter (\<lambda>ev. is_Submit_trim_se ev \<or> is_Submit_trim_pe ev) (fst (detect_phase w o1 a)) = []"
  using detect_phase_events [of w o1 a] by (auto simp: filter_empty_conv)

lemma trim_phase_only_trim:
  "filter is_Write_tsv (fst (trim_phase w o2 a)) = []"
  "filter is_Submit_detect (fst (trim_phase w o2 a)) = []"
  using trim_phase_events [of w o2 a] by (auto simp: filter_empty_conv)

lemma detect_phase_submitted_ok:
  assumes v: "valid_shape (paired_end a) (fastqs a) (adapters a)"
    and run: "snd (detect_phase w order a) = Inr ad'"
    and f: "Submit_detect f \<in> set (fst (detect_phase w order a))"
  shows "\<exists>r. detect_most_likely_adapter w f = Inr r"
proof -
  from detect_phase_valid [OF v]
  have "fst (detect_phase w order a) = map Submit_detect (detect_tasks a)" by auto
  with f have "f \<in> set (detect_tasks a)" by auto
  with detect_phase_tasks_ok [OF v run] show ?thesis by blast
qed

lemma trim_phase_submitted_ok:
  assumes v: "valid_shape (paired_end a) (fastqs a) (adapters a)"
    and run: "snd (trim_phase w order a) = Inr rows"
  shows "Submit_trim_se t \<in> set (fst (trim_phase w order a)) \<Longrightarrow> \<exists>p. run_se w t = Inr p"
    and "Submit_trim_pe u \<in> set (fst (trim_phase w order a)) \<Longrightarrow> \<exists>p. run_pe w u = Inr p"
proof -
  assume t: "Submit_trim_se t \<in> set (fst (trim_phase w order a))"
  show "\<exists>p. run_se w t = Inr p"
  proof (cases "paired_end a")
    case True
    with t show ?thesis by (auto simp: trim_phase_valid [OF v])
  next
    case False
    with t obtain i where "i < length (fastqs a)" and "t = se_task_of a i"
      by (auto simp: trim_phase_valid [OF v])
    with trim_phase_rows_se [OF v False run] show ?thesis by blast
  qed
next
  assume u: "Submit_trim_pe u \<in> set (fst (trim_phase w order a))"
  show "\<exists>p. run_pe w u = Inr p"
  proof (cases "paired_end a")
    case False
    with u show ?thesis by (auto simp: trim_phase_valid [OF v])
  next
    case True
    with u obtain i where "i < length (fastqs a)" and "u = pe_task_of a i"
      by (auto simp: trim_phase_valid [OF v])
    with trim_phase_rows_pe [OF v True run] show ?thesis by blast
  qed
qed

lemma detect_phase_count:
  assumes v: "valid_shape (paired_end a) (fastqs a) (adapters a)"
  shows "length (fst (detect_phase w order a)) \<le> arity (paired_end a) * length (fastqs a)"
proof -
  from detect_phase_valid [OF v]
  have "fst (detect_phase w order a) = map Submit_detect (detect_tasks a)" by auto
  with length_detect_tasks [OF v] show ?thesis by simp
qed

lemma trim_phase_count:
  assumes v: "valid_shape (paired_end a) (fastqs a) (adapters a)"
  shows "length (fst (trim_phase w order a)) = length (fastqs a)"
  by (simp add: trim_phase_valid [OF v])

lemma detect_phase_keeps_shape:
  assumes v: "valid_shape (paired_end a) (fastqs a) (adapters a)"
    and run: "snd (detect_phase w order a) = Inr ad"
  shows "valid_shape (paired_end (a\<lparr>adapters := ad\<rparr>)) (fastqs (a\<lparr>adapters := ad\<rparr>))
           (adapters (a\<lparr>adapters := ad\<rparr>))"
proof -
  note F = detect_phase_frame [OF v run]
  have "valid_shape (paired_end a) (fastqs a) ad"
    using v F(1) F(2) by (rule valid_shape_update)
  then show ?thesis by simp
qed

lemma main_agree:
  assumes p: "parse_arguments w c = Inr a"
    and run: "snd (main w o1 o2 c) = Inr ()"
    and other: "snd (main w o1' o2' c) = Inr ()
                \<or> (set [0..<2 * length (fastqs a)] \<subseteq> set o1'
                    \<and> set [0..<length (fastqs a)] \<subseteq> set o2')"
  shows "main w o1' o2' c = main w o1 o2 c"
proof -
  note v = parse_arguments_valid [OF p]
  from p run obtain ad trimmed where
    mk: "mkdir_p w (out_dir a) = None" and np: "1 \<le> num_process a"
    and d: "snd (detect_phase w o1 a) = Inr ad"
    and t: "snd (trim_phase w o2 (a\<lparr>adapters := ad\<rparr>)) = Inr trimmed"
    by (cases rule: main_cases [where ?o1.0 = o1 and ?o2.0 = o2]) simp_all
  note v' = detect_phase_keeps_shape [OF v d]
  have D: "detect_phase w o1' a = detect_phase w o1 a"
  proof (rule detect_phase_agree [OF v d])
    from other show "(\<exists>ad''. snd (detect_phase w o1' a) = Inr ad'')
                \<or> set [0..<2 * length (fastqs a)] \<subseteq> set o1'"
    proof
      assume s: "snd (main w o1' o2' c) = Inr ()"
      from p s have "\<exists>ad''. snd (detect_phase w o1' a) = Inr ad''"
        by (cases rule: main_cases [where ?o1.0 = o1' and ?o2.0 = o2']) simp_all
      then show ?thesis by (rule disjI1)
    next
      assume "set [0..<2 * length (fastqs a)] \<subseteq> set o1'
                    \<and> set [0..<length (fastqs a)] \<subseteq> set o2'"
      then show ?thesis by blast
    qed
  qed
  have T: "trim_phase w o2' (a\<lparr>adapters := ad\<rparr>) = trim_phase w o2 (a\<lparr>adapters := ad\<rparr>)"
  proof (rule trim_phase_agree [OF v' t])
    from other show "(\<exists>rows'. snd (trim_phase w o2' (a\<lparr>adapters := ad\<rparr>)) = Inr rows')
         \<or> set [0..<length (fastqs (a\<lparr>adapters := ad\<rparr>))] \<subseteq> set o2'"
    proof
      assume s: "snd (main w o1' o2' c) = Inr ()"
      from p s obtain ad'' rows' where "snd (detect_phase w o1' a) = Inr ad''"
        and "snd (trim_phase w o2' (a\<lparr>adapters := ad''\<rparr>)) = Inr rows'"
        by (cases rule: main_cases [where ?o1.0 = o1' and ?o2.0 = o2']) simp_all
      with D d show ?thesis by simp
    next
      assume "set [0..<2 * length (fastqs a)] \<subseteq> set o1'
                    \<and> set [0..<length (fastqs a)] \<subseteq> set o2'"
      then show ?thesis by simp
    qed
  qed
  show ?thesis
    by (simp add: main_unfold [OF p] mk np D d T t)
qed

subsection \<open>Where the detection results are stored\<close>

lemma length_chunks [simp]: "length (chunks ar start g) = g"
  by (induction g arbitrary: start) simp_all

lemma chunks_nth:
  "k < g \<Longrightarrow> chunks ar start g ! k = [start + k * ar..<start + k * ar + ar]"
proof (induction g arbitrary: start k)
  case 0
  then show ?case by simp
next
  case (Suc g)
  show ?case
  proof (cases k)
    case 0
    then show ?thesis by simp
  next
    case (Suc k')
    with Suc.prems have "k' < g" by simp
    from Suc.IH [OF this, of "start + ar"] Suc show ?thesis
      by (simp add: add.assoc add.commute add.left_commute)
  qed
qed

lemma detect_loop_chunks:
  assumes "\<forall>i\<in>set is. i < length fq \<and> i < length ad
             \<and> length (fq ! i) = arity pe \<and> row_len (ad ! i) = arity pe"
  shows "detect_loop pe auto fq ad is (tasks, rv) =
           (map Submit_detect (concat (map (\<lambda>i. fq ! i) (detect_rows auto ad is))),
            Inr (tasks @ concat (map (\<lambda>i. fq ! i) (detect_rows auto ad is)),
                 rv @ chunks (arity pe) (length tasks) (length (detect_rows auto ad is))))"
  using assms
proof (induction "is" arbitrary: tasks rv)
  case Nil
  then show ?case by (simp add: detect_rows_def ret_def)
next
  case (Cons i "is")
  have i: "i < length fq" "i < length ad" "length (fq ! i) = arity pe"
    "row_len (ad ! i) = arity pe"
    using Cons.prems by simp_all
  have rest: "\<forall>i\<in>set is. i < length fq \<and> i < length ad
             \<and> length (fq ! i) = arity pe \<and> row_len (ad ! i) = arity pe"
    using Cons.prems by simp
  let ?new = "concat (map (\<lambda>i. fq ! i) (detect_rows auto ad is))"
  let ?g = "length (detect_rows auto ad is)"
  show ?case
  proof (cases "auto \<and> [] \<in> set (row_cells (ad ! i))")
    case True
    have dr: "detect_rows auto ad (i # is) = i # detect_rows auto ad is"
      using True by (simp add: detect_rows_def)
    have step: "detect_step pe auto (fq ! i) (ad ! i) (tasks, rv) =
       (map Submit_detect (fq ! i),
        Inr (tasks @ fq ! i, rv @ [[length tasks ..< length tasks + length (fq ! i)]]))"
      using True by (simp add: detect_step_valid [OF i(3) i(4)])
    have run: "detect_loop pe auto fq ad (i # is) (tasks, rv) =
       (map Submit_detect (fq ! i @ ?new),
        Inr (tasks @ fq ! i @ ?new,
             rv @ ([length tasks ..< length tasks + length (fq ! i)]
                     # chunks (arity pe) (length (tasks @ fq ! i)) ?g)))"
      by (simp add: index_def i(1) i(2) step
            Cons.IH [OF rest, of "tasks @ fq ! i"
              "rv @ [[length tasks ..< length tasks + length (fq ! i)]]"])
    show ?thesis unfolding run dr by (simp add: i(3))
  next
    case False
    have dr: "detect_rows auto ad (i # is) = detect_rows auto ad is"
      using False by (simp add: detect_rows_def)
    have step: "detect_step pe auto (fq ! i) (ad ! i) (tasks, rv) = ([], Inr (tasks, rv))"
      using False by (simp add: detect_step_valid [OF i(3) i(4)])
    show ?thesis
      unfolding dr by (simp add: index_def i(1) i(2) step Cons.IH [OF rest, of tasks rv])
  qed
qed

lemma detect_phase_chunks:
  assumes "valid_shape (paired_end a) (fastqs a) (adapters a)"
  shows "detect_phase w order a =
           (map Submit_detect (detect_tasks a),
            update_loop (arrivals order (detect_most_likely_adapter w) (detect_tasks a))
              (adapters a) 0
              (chunks (arity (paired_end a)) 0
                 (length (detect_rows (auto_detect_adapter a) (adapters a)
                            [0..<length (fastqs a)]))))"
  using detect_loop_chunks [OF valid_shape_rows [OF assms], of "auto_detect_adapter a" "[]" "[]"]
  by (simp add: detect_phase_def detect_tasks_def lift_def)

lemma concat_nth_uniform:
  assumes "\<forall>x\<in>set xs. length (f x) = ar" and "k < length xs" and "j < ar"
  shows "concat (map f xs) ! (k * ar + j) = f (xs ! k) ! j"
  using assms
proof (induction xs arbitrary: k)
  case Nil
  then show ?case by simp
next
  case (Cons x xs)
  have lx: "length (f x) = ar" using Cons.prems(1) by simp
  show ?case
  proof (cases k)
    case 0
    with Cons.prems(3) lx show ?thesis by (simp add: nth_append)
  next
    case (Suc k')
    have "\<forall>x\<in>set xs. length (f x) = ar" using Cons.prems(1) by simp
    moreover have "k' < length xs" using Cons.prems(2) Suc by simp
    ultimately have "concat (map f xs) ! (k' * ar + j) = f (xs ! k') ! j"
      using Cons.prems(3) by (rule Cons.IH)
    with Suc lx show ?thesis by (simp add: nth_append)
  qed
qed

lemma filter_upt_prefix:
  assumes "i < n" and "\<forall>k\<le>i. P k"
  shows "i < length (filter P [0..<n]) \<and> filter P [0..<n] ! i = i"
proof -
  have split: "[0..<n] = [0..<Suc i] @ [Suc i..<n]"
    using assms(1) upt_add_eq_append [of 0 "Suc i" "n - Suc i"] by simp
  have all: "filter P [0..<Suc i] = [0..<Suc i]"
    using assms(2) by (intro filter_True) auto
  have "filter P [0..<n] = [0..<Suc i] @ filter P [Suc i..<n]"
    by (subst split) (simp only: filter_append all)
  then show ?thesis by (simp add: nth_append del: upt_Suc)
qed

lemma row_set_cells:
  assumes "row_set r j v = Inr r'"
  shows "j < length (row_cells r) \<and> row_cells r' = (row_cells r)[j := v]"
  using assms by (cases r) (auto split: if_splits)

lemma update_row_cells:
  assumes "update_row finished ad i j hs = Inr ad'"
  shows "(\<forall>p<j. row_cells (ad' ! i) ! p = row_cells (ad ! i) ! p)
       \<and> (\<forall>t<length hs. \<exists>v. get finished (hs ! t) = Inr v
                              \<and> row_cells (ad' ! i) ! (j + t) = str v)"
  using assms
proof (induction hs arbitrary: ad j)
  case Nil
  then show ?case by simp
next
  case (Cons h hs)
  from Cons.prems obtain v r r' where
    g: "get finished h = Inr v" and r: "index ad i = Inr r"
    and s: "row_set r j (str v) = Inr r'"
    and rest: "update_row finished (ad[i := r']) i (Suc j) hs = Inr ad'"
    by (auto split: sum.splits)
  from r have i: "i < length ad" "r = ad ! i"
    by (auto simp: index_def split: if_splits)
  from row_set_cells [OF s] have j: "j < length (row_cells r)"
    and c: "row_cells r' = (row_cells r)[j := str v]" by simp_all
  note IH = Cons.IH [OF rest]
  have now: "row_cells ((ad[i := r']) ! i) = (row_cells (ad ! i))[j := str v]"
    using i c by simp
  have before: "row_cells (ad' ! i) ! p = row_cells (ad ! i) ! p" if "p < j" for p
  proof -
    from that have "p < Suc j" by simp
    with IH have "row_cells (ad' ! i) ! p = row_cells ((ad[i := r']) ! i) ! p" by blast
    with that show ?thesis by (simp add: now)
  qed
  have here: "row_cells (ad' ! i) ! j = str v"
  proof -
    from IH have "row_cells (ad' ! i) ! j = row_cells ((ad[i := r']) ! i) ! j" by simp
    also have "\<dots> = (row_cells (ad ! i))[j := str v] ! j" by (simp only: now)
    also have "\<dots> = str v" using j i by simp
    finally show ?thesis .
  qed
  have after: "\<exists>v'. get finished ((h # hs) ! t) = Inr v'
                 \<and> row_cells (ad' ! i) ! (j + t) = str v'" if t: "t < length (h # hs)" for t
  proof (cases t)
    case 0
    with g here show ?thesis by simp
  next
    case (Suc t')
    with t have "t' < length hs" by simp
    with IH obtain v' where "get finished (hs ! t') = Inr v'"
      and "row_cells (ad' ! i) ! (Suc j + t') = str v'" by blast
    with Suc show ?thesis by simp
  qed
  from before after show ?case by blast
qed

lemma update_loop_cells:
  assumes "update_loop finished ad i rv = Inr ad'"
  shows "\<forall>k<length rv. \<forall>t<length (rv ! k).
           \<exists>v. get finished (rv ! k ! t) = Inr v \<and> row_cells (ad' ! (i + k)) ! t = str v"
  using assms
proof (induction rv arbitrary: ad i)
  case Nil
  then show ?case by simp
next
  case (Cons hs rv)
  from Cons.prems obtain ad1 where
    row: "update_row finished ad i 0 hs = Inr ad1"
    and rest: "update_loop finished ad1 (Suc i) rv = Inr ad'"
    by (auto split: sum.splits)
  note C = update_row_cells [OF row]
  note F = update_loop_frame [OF rest]
  note IH = Cons.IH [OF rest]
  have same: "ad' ! i = ad1 ! i" using F by simp
  have "\<exists>v. get finished ((hs # rv) ! k ! t) = Inr v
            \<and> row_cells (ad' ! (i + k)) ! t = str v"
    if k: "k < length (hs # rv)" and t: "t < length ((hs # rv) ! k)" for k t
  proof (cases k)
    case 0
    with t have "t < length hs" by simp
    with C obtain v where "get finished (hs ! t) = Inr v"
      and "row_cells (ad1 ! i) ! (0 + t) = str v" by blast
    with 0 same show ?thesis by simp
  next
    case (Suc k')
    with k t have "k' < length rv" and "t < length (rv ! k')" by simp_all
    with IH obtain v where "get finished (rv ! k' ! t) = Inr v"
      and "row_cells (ad' ! (Suc i + k')) ! t = str v" by blast
    with Suc show ?thesis by simp
  qed
  then show ?case by blast
qed

text \<open>Where the results of a successful detection phase are: the adapters of row \<open>k\<close>
  are the texts of what the detector returned for the FASTQs of the \<open>k\<close>-th row for which
  detection was requested.\<close>

lemma detect_phase_records:
  assumes v: "valid_shape (paired_end a) (fastqs a) (adapters a)"
    and run: "snd (detect_phase w order a) = Inr ad'"
    and k: "k < length (detect_rows (auto_detect_adapter a) (adapters a) [0..<length (fastqs a)])"
    and j: "j < arity (paired_end a)"
  shows "\<exists>r. detect_most_likely_adapter w
               (fastqs a ! (detect_rows (auto_detect_adapter a) (adapters a)
                              [0..<length (fastqs a)] ! k) ! j) = Inr r
            \<and> row_cells (ad' ! k) ! j = str r"
proof -
  let ?G = "detect_rows (auto_detect_adapter a) (adapters a) [0..<length (fastqs a)]"
  let ?ar = "arity (paired_end a)"
  let ?F = "arrivals order (detect_most_likely_adapter w) (detect_tasks a)"
  from run have up: "update_loop ?F (adapters a) 0 (chunks ?ar 0 (length ?G)) = Inr ad'"
    unfolding detect_phase_chunks [OF v] by simp
  have ck: "chunks ?ar 0 (length ?G) ! k = [k * ?ar..<k * ?ar + ?ar]"
    using chunks_nth [OF k, of ?ar 0] by simp
  from update_loop_cells [OF up, rule_format, of k j] k j ck
  obtain r where g: "get ?F (k * ?ar + j) = Inr r"
    and c: "row_cells (ad' ! (0 + k)) ! j = str r"
    by auto
  have len: "\<forall>i\<in>set ?G. length (fastqs a ! i) = ?ar"
    using valid_shape_arity [OF v] by (simp add: detect_rows_def)
  have "detect_tasks a ! (k * ?ar + j) = fastqs a ! (?G ! k) ! j"
    unfolding detect_tasks_def using len k j by (rule concat_nth_uniform)
  with get_arrivals_Inr [OF g] have "detect_most_likely_adapter w (fastqs a ! (?G ! k) ! j) = Inr r"
    by simp
  with c show ?thesis by simp
qed

lemma detect_rows_prefix:
  assumes i: "i < length (fastqs a)"
    and p: "\<forall>k\<le>i. k \<in> set (detect_rows (auto_detect_adapter a) (adapters a)
                                [0..<length (fastqs a)])"
  shows "i < length (detect_rows (auto_detect_adapter a) (adapters a) [0..<length (fastqs a)])
       \<and> detect_rows (auto_detect_adapter a) (adapters a) [0..<length (fastqs a)] ! i = i"
proof -
  from p have "\<forall>k\<le>i. auto_detect_adapter a \<and> [] \<in> set (row_cells (adapters a ! k))"
    by (simp add: detect_rows_def)
  with i show ?thesis unfolding detect_rows_def by (rule filter_upt_prefix)
qed

lemma detect_phase_records_own:
  assumes v: "valid_shape (paired_end a) (fastqs a) (adapters a)"
    and run: "snd (detect_phase w order a) = Inr ad'"
    and i: "i < length (fastqs a)"
    and p: "\<forall>k\<le>i. k \<in> set (detect_rows (auto_detect_adapter a) (adapters a)
                                [0..<length (fastqs a)])"
    and j: "j < arity (paired_end a)"
  shows "\<exists>r. detect_most_likely_adapter w (fastqs a ! i ! j) = Inr r
            \<and> row_cells (ad' ! i) ! j = str r"
proof -
  from detect_rows_prefix [OF i p]
  have k: "i < length (detect_rows (auto_detect_adapter a) (adapters a) [0..<length (fastqs a)])"
    and e: "detect_rows (auto_detect_adapter a) (adapters a) [0..<length (fastqs a)] ! i = i"
    by simp_all
  from detect_phase_records [OF v run k j] show ?thesis unfolding e .
qed

text \<open>Lines 58-61: adapters that are absent or read from a TSV leave \<open>args.fastqs\<close>
  as it was.\<close>

lemma parse_adapters_not_inline:
  assumes "parse_adapters w fq0 ad = Inr (fq1, ad0)"
    and "\<not> (\<exists>t ts. ad = Some (t # ts) \<and> \<not> path_exists w t)"
  shows "fq1 = fq0"
  using assms
  by (auto simp: parse_adapters_def split: option.splits list.splits if_splits sum.splits)

section \<open>The claims\<close>

text \<open>
  Claim C1, as the code has it.  On a batch of valid shape, detection is requested for a
  row exactly when auto-detection is on and some adapter of the row is empty (lines
  167-168 and 175-176): in single-end mode that is the row's only slot; in paired-end mode
  one empty adapter is enough and both mates are submitted, also the mate whose adapter
  was given.  The detection tasks submitted are the FASTQs of those rows, in row order,
  and nothing else.  If the detection phase ends without error, the adapters keep their
  shape; in a row such that detection was requested for it and for every row before it,
  each adapter, given or not, is replaced by the text of what the detector returned for
  the FASTQ of that slot; a row for which detection was not requested and that comes after
  every row for which it was reaches the trim phase with its adapters unmodified (in
  particular all rows, when nothing is requested); and the trim tasks are submitted with
  the adapters as they then are.  The other rows are those that lines 182-186 reach by
  their position in \<open>ret_vals\<close> instead of their index; the theorem says nothing
  about them.
\<close>

theorem detection_requests:
  assumes "valid_shape (paired_end a) (fastqs a) (adapters a)"
  shows "(\<forall>i<length (fastqs a).
            needs_detect (paired_end a) (auto_detect_adapter a) (adapters a ! i) = Inr True
              \<longleftrightarrow> i \<in> set (detect_rows (auto_detect_adapter a) (adapters a) [0..<length (fastqs a)]))
       \<and> (\<forall>i. i \<in> set (detect_rows (auto_detect_adapter a) (adapters a) [0..<length (fastqs a)])
              \<longleftrightarrow> i < length (fastqs a) \<and> auto_detect_adapter a
                    \<and> [] \<in> set (row_cells (adapters a ! i)))
       \<and> fst (detect_phase w order a) = map Submit_detect (detect_tasks a)
       \<and> (\<forall>ad'. snd (detect_phase w order a) = Inr ad' \<longrightarrow>
             valid_shape (paired_end a) (fastqs a) ad'
             \<and> (\<forall>i<length (fastqs a).
                   (\<forall>k\<le>i. k \<in> set (detect_rows (auto_detect_adapter a) (adapters a)
                                         [0..<length (fastqs a)]))
                   \<longrightarrow> (\<forall>j<arity (paired_end a).
                          \<exists>r. detect_most_likely_adapter w (fastqs a ! i ! j) = Inr r
                              \<and> row_cells (ad' ! i) ! j = str r))
             \<and> (\<forall>i<length (fastqs a).
                   i \<notin> set (detect_rows (auto_detect_adapter a) (adapters a) [0..<length (fastqs a)])
                   \<and> (\<forall>k\<in>set (detect_rows (auto_detect_adapter a) (adapters a)
                                  [0..<length (fastqs a)]). k < i)
                   \<longrightarrow> ad' ! i = adapters a ! i)
             \<and> fst (trim_phase w order2 (a\<lparr>adapters := ad'\<rparr>)) =
                 (if paired_end a
                  then map Submit_trim_pe (map (pe_task_of (a\<lparr>adapters := ad'\<rparr>))
                         [0..<length (fastqs a)])
                  else map Submit_trim_se (map (se_task_of (a\<lparr>adapters := ad'\<rparr>))
                         [0..<length (fastqs a)])))"
proof -
  let ?rows = "detect_rows (auto_detect_adapter a) (adapters a) [0..<length (fastqs a)]"
  have mem: "i \<in> set ?rows \<longleftrightarrow> i < length (fastqs a) \<and> auto_detect_adapter a
                    \<and> [] \<in> set (row_cells (adapters a ! i))" for i
    unfolding detect_rows_def by (simp add: conj_commute conj_left_commute)
  have c1: "needs_detect (paired_end a) (auto_detect_adapter a) (adapters a ! i) = Inr True
              \<longleftrightarrow> i \<in> set ?rows" if i: "i < length (fastqs a)" for i
  proof -
    from valid_shape_arity [OF assms i]
    have "row_len (adapters a ! i) = arity (paired_end a)" by (rule conjunct2)
    then have "needs_detect (paired_end a) (auto_detect_adapter a) (adapters a ! i)
          = Inr (auto_detect_adapter a \<and> [] \<in> set (row_cells (adapters a ! i)))"
      by (rule needs_detect_valid)
    then show ?thesis using i by (simp add: mem)
  qed
  from detect_phase_valid [OF assms]
  have c3: "fst (detect_phase w order a) = map Submit_detect (detect_tasks a)" by auto
  have c4: "valid_shape (paired_end a) (fastqs a) ad'
             \<and> (\<forall>i<length (fastqs a).
                   (\<forall>k\<le>i. k \<in> set ?rows)
                   \<longrightarrow> (\<forall>j<arity (paired_end a).
                          \<exists>r. detect_most_likely_adapter w (fastqs a ! i ! j) = Inr r
                              \<and> row_cells (ad' ! i) ! j = str r))
             \<and> (\<forall>i<length (fastqs a).
                   i \<notin> set ?rows \<and> (\<forall>k\<in>set ?rows. k < i)
                   \<longrightarrow> ad' ! i = adapters a ! i)
             \<and> fst (trim_phase w order2 (a\<lparr>adapters := ad'\<rparr>)) =
                 (if paired_end a
                  then map Submit_trim_pe (map (pe_task_of (a\<lparr>adapters := ad'\<rparr>))
                         [0..<length (fastqs a)])
                  else map Submit_trim_se (map (se_task_of (a\<lparr>adapters := ad'\<rparr>))
                         [0..<length (fastqs a)]))"
    if run: "snd (detect_phase w order a) = Inr ad'" for ad'
  proof -
    note F = detect_phase_frame [OF assms run]
    have v': "valid_shape (paired_end a) (fastqs a) ad'"
      using assms F(1) F(2) by (rule valid_shape_update)
    have own: "\<exists>r. detect_most_likely_adapter w (fastqs a ! i ! j) = Inr r
                              \<and> row_cells (ad' ! i) ! j = str r"
      if "i < length (fastqs a)" and "\<forall>k\<le>i. k \<in> set ?rows"
        and "j < arity (paired_end a)" for i j
      using assms run that by (rule detect_phase_records_own)
    have keep: "ad' ! i = adapters a ! i"
      if "i < length (fastqs a)" and "\<forall>k\<in>set ?rows. k < i" for i
    proof -
      have "\<forall>k<length (fastqs a).
          auto_detect_adapter a \<and> [] \<in> set (row_cells (adapters a ! k)) \<longrightarrow> k < i"
      proof (intro allI impI)
        fix k
        assume "k < length (fastqs a)"
          and "auto_detect_adapter a \<and> [] \<in> set (row_cells (adapters a ! k))"
        then have "k \<in> set ?rows" using mem [of k] by blast
        with that(2) show "k < i" by blast
      qed
      then have "length ?rows \<le> i"
        unfolding detect_rows_def by (rule filter_upt_bound)
      with F(3) show ?thesis by blast
    qed
    from v' own keep trim_phase_events_valid [OF v', of w order2] show ?thesis by blast
  qed
  from c1 mem c3 c4 show ?thesis by blast
qed

text \<open>
  The theorem on a paired-end batch of two rows, the first with the adapters
  \<open>AGATCG\<close> and empty, the second with \<open>AAA\<close> and \<open>CCC\<close>: both mates of the
  first row are submitted and no file of the second, the first adapter of the first row
  becomes the detected \<open>CTGTCT\<close>, and the second row keeps its adapters.
\<close>

theorem detection_requests_witness:
  "valid_shape (paired_end sample_args_pe2) (fastqs sample_args_pe2) (adapters sample_args_pe2)
   \<and> fst (detect_phase sample_world [1, 0] sample_args_pe2)
       = [Submit_detect ''a_1.fastq.gz'', Submit_detect ''a_2.fastq.gz'']
   \<and> (\<exists>ad'. snd (detect_phase sample_world [1, 0] sample_args_pe2) = Inr ad'
          \<and> row_cells (ad' ! 0) ! 0 = ''CTGTCT''
          \<and> ad' ! 1 = Cols [''AAA'', ''CCC''])"
proof -
  let ?a = sample_args_pe2
  have "check_dimension (paired_end ?a) (fastqs ?a) (adapters ?a) = Inr ()"
    by code_simp
  then have v: "valid_shape (paired_end ?a) (fastqs ?a) (adapters ?a)"
    by (simp add: check_dimension_iff)
  note T = detection_requests [OF v, of sample_world "[1, 0]" "[]"]
  have rows2: "detect_rows (auto_detect_adapter ?a) (adapters ?a) [0..<2] = [0]"
    by code_simp
  have tasks: "detect_tasks ?a = [''a_1.fastq.gz'', ''a_2.fastq.gz'']" by code_simp
  have n: "length (fastqs ?a) = 2" and ar: "arity (paired_end ?a) = 2"
    and a1: "adapters ?a ! 1 = Cols [''AAA'', ''CCC'']"
    and f00: "fastqs ?a ! 0 ! 0 = ''a_1.fastq.gz''"
    and d: "detect_most_likely_adapter sample_world ''a_1.fastq.gz'' = Inr (Some ''CTGTCT'')"
    by code_simp+
  from T have "fst (detect_phase sample_world [1, 0] ?a) = map Submit_detect (detect_tasks ?a)"
    by (rule conjunct2 [THEN conjunct2, THEN conjunct1])
  then have ev: "fst (detect_phase sample_world [1, 0] ?a)
                   = [Submit_detect ''a_1.fastq.gz'', Submit_detect ''a_2.fastq.gz'']"
    by (simp add: tasks)
  have run: "snd (detect_phase sample_world [1, 0] ?a)
               = Inr [Cols [''CTGTCT'', ''None''], Cols [''AAA'', ''CCC'']]"
    by code_simp
  note R = T [THEN conjunct2, THEN conjunct2, THEN conjunct2, rule_format, OF run]
  note own = R [THEN conjunct2, THEN conjunct1, unfolded n rows2 ar, rule_format, of 0 0]
  have "\<exists>r. detect_most_likely_adapter sample_world (fastqs ?a ! 0 ! 0) = Inr r
            \<and> row_cells ([Cols [''CTGTCT'', ''None''], Cols [''AAA'', ''CCC'']] ! 0) ! 0 = str r"
    by (rule own) simp_all
  then obtain r where "detect_most_likely_adapter sample_world ''a_1.fastq.gz'' = Inr r"
    and c: "row_cells ([Cols [''CTGTCT'', ''None''], Cols [''AAA'', ''CCC'']] ! 0) ! 0 = str r"
    unfolding f00 by blast
  with d have "r = Some ''CTGTCT''" by simp
  with c have c0: "row_cells ([Cols [''CTGTCT'', ''None''], Cols [''AAA'', ''CCC'']] ! 0) ! 0
                     = ''CTGTCT''" by simp
  note keep = R [THEN conjunct2, THEN conjunct2, THEN conjunct1, unfolded n rows2,
      rule_format, of 1]
  have "[Cols [''CTGTCT'', ''None''], Cols [''AAA'', ''CCC'']] ! 1 = adapters ?a ! 1"
    by (rule keep) simp_all
  then have c1: "[Cols [''CTGTCT'', ''None''], Cols [''AAA'', ''CCC'']] ! 1
                   = Cols [''AAA'', ''CCC'']"
    by (simp only: a1)
  from run c0 c1
  have "\<exists>ad'. snd (detect_phase sample_world [1, 0] ?a) = Inr ad'
          \<and> row_cells (ad' ! 0) ! 0 = ''CTGTCT''
          \<and> ad' ! 1 = Cols [''AAA'', ''CCC'']"
    by blast
  with v ev show ?thesis by blast
qed

text \<open>
  Claim C1 as stated fails.  In the paired-end run of the sample command line the adapter
  \<open>AGATCG\<close> was supplied for the first mate; a detection task is submitted for that
  mate all the same, and the trim task receives the detected \<open>CTGTCT\<close> (lines 167-168
  and 184).  In the single-end batch whose first row has the adapter \<open>AGATCG\<close> and
  whose second row has none, the only detection task is for the second row's file, and its
  result replaces the adapter of the first row, the second row keeping the empty adapter
  (lines 182-186).
\<close>

theorem explicit_adapter_redetected:
  "parse_arguments sample_world sample_cmdline = Inr sample_args
   \<and> adapters sample_args = [Cols [''AGATCG'', '''']]
   \<and> main sample_world [1, 0] [0] sample_cmdline =
       ([Mkdir ''out'', Pool 2,
         Submit_detect ''a_1.fastq.gz'', Submit_detect ''a_2.fastq.gz'',
         Submit_trim_pe (''a_1.fastq.gz'', ''a_2.fastq.gz'', ''CTGTCT'', ''None'', 5, ''0.1'', ''out''),
         Write_tsv ''out/out.tsv'' [[''out/a_1.trim.fastq.gz'', ''out/a_2.trim.fastq.gz'']]],
        Inr ())
   \<and> detect_phase sample_world [0]
          \<lparr> fastqs = [[''a.fastq.gz''], [''b.fastq.gz'']],
            adapters = [Cols [''AGATCG''], Cols ['''']],
            auto_detect_adapter = True, min_trim_len = 5, err_rate = ''0.1'',
            paired_end = False, nth = 4, out_dir = ''out'', out_tsv = ''out.tsv'' \<rparr>
     = ([Submit_detect ''b.fastq.gz''], Inr [Cols [''None''], Cols ['''']])"
  by code_simp

text \<open>
  Claim C2 describes what line 63 is meant to do, and the code does something else.  When the first adapter token
  is not an existing path, the \<open>else\<close> branch assigns the wrapped tokens to
  \<open>args.fastqs\<close>: the FASTQ matrix is replaced by the adapter tokens and
  \<open>args.adapters\<close> stays the flat list of tokens.  On the command line
  \<open>a.fastq.gz --adapters AGATCG\<close> the FASTQ matrix becomes \<open>[['AGATCG']]\<close>, and the
  dimension check then compares the row length 1 with the length 6 of the token and
  raises \<open>fastqs and adapters dimension mismatch\<close>.
\<close>

theorem parse_adapters_inline_overwrites_fastqs:
  "parse_adapters sample_world [[''a.fastq.gz'']] (Some [''AGATCG''])
     = Inr ([[''AGATCG'']], Some [Tok ''AGATCG''])
   \<and> parse_arguments sample_world
         \<lparr> cl_fastqs = [''a.fastq.gz''], cl_adapters = Some [''AGATCG''],
           cl_auto_detect_adapter = False, cl_min_trim_len = 5, cl_err_rate = ''0.1'',
           cl_paired_end = False, cl_nth = 1, cl_out_dir = ''out'', cl_out_tsv = ''out.tsv'' \<rparr>
     = Inl (ArgumentTypeError ''fastqs and adapters dimension mismatch.'')"
  by code_simp

text \<open>
  Claim C3, as the code has it.  On a batch of valid shape whose detection phase ends
  without error, take a row such that detection was requested for it and for every row
  before it (every row, when no adapter is given and auto-detection is on), and a slot of
  that row.  The detection task of the slot's FASTQ returned some \<open>r\<close>, and the adapter
  recorded for the slot is \<open>str r\<close> (line 184), which is empty if and only if the
  detector returned the empty string; for \<open>None\<close> it is the four characters
  \<open>None\<close>.  In single-end mode the trim task of the row is submitted with that text,
  and the task called with it takes the hard-link branch if and only if the detector
  returned the empty string; for \<open>None\<close> it builds the \<open>cutadapt\<close> command with
  \<open>-a None\<close>.  In paired-end mode a mate whose adapter is the text of \<open>None\<close>
  counts as a mate with an adapter: the pair is trimmed if and only if the other adapter
  is not empty.
\<close>

theorem detected_adapter_recorded_as_text:
  assumes v: "valid_shape (paired_end a) (fastqs a) (adapters a)"
    and run: "snd (detect_phase w order a) = Inr ad'"
    and i: "i < length (fastqs a)"
    and p: "\<forall>k\<le>i. k \<in> set (detect_rows (auto_detect_adapter a) (adapters a)
                                [0..<length (fastqs a)])"
    and j: "j < arity (paired_end a)"
  shows "(\<exists>r. detect_most_likely_adapter w (fastqs a ! i ! j) = Inr r
            \<and> row_cells (ad' ! i) ! j = str r
            \<and> (str r = [] \<longleftrightarrow> r = Some [])
            \<and> (r = None \<longrightarrow> row_cells (ad' ! i) ! j = ''None'')
            \<and> (\<not> paired_end a \<longrightarrow>
                  fst (trim_phase w order2 (a\<lparr>adapters := ad'\<rparr>)) ! i =
                    Submit_trim_se (fastqs a ! i ! 0, str r, min_trim_len a, err_rate a, out_dir a))
            \<and> (\<not> paired_end a \<longrightarrow>
                  ((\<exists>l. fst (trim_adapter_se w (fastqs a ! i ! 0) (str r)
                                 (min_trim_len a) (err_rate a) (out_dir a))
                            = [Link (fastqs a ! i ! 0) l]) \<longleftrightarrow> r = Some []))
            \<and> (\<not> paired_end a \<and> r = None \<longrightarrow>
                  fst (trim_adapter_se w (fastqs a ! i ! 0) (str r)
                         (min_trim_len a) (err_rate a) (out_dir a)) =
                    [Shell (''cutadapt '' @ min_len_opt (min_trim_len a) @ '' -e ''
                              @ err_rate a @ '' -a None '' @ fastqs a ! i ! 0
                              @ '' | gzip -nc > ''
                              @ path_join (out_dir a)
                                  (basename (strip_ext_fastq w (fastqs a ! i ! 0)))
                              @ ''.trim.fastq.gz'')]))
       \<and> ((\<exists>c. Shell c \<in> set (fst (trim_adapter_pe w f1 f2 (str None) a2 m e d)))
             \<longleftrightarrow> a2 \<noteq> [])
       \<and> ((\<exists>c. Shell c \<in> set (fst (trim_adapter_pe w f1 f2 a1 (str None) m e d)))
             \<longleftrightarrow> a1 \<noteq> [])"
proof -
  from detect_phase_records_own [OF v run i p j] obtain r where
    d: "detect_most_likely_adapter w (fastqs a ! i ! j) = Inr r"
    and c: "row_cells (ad' ! i) ! j = str r"
    by blast
  have e: "str r = [] \<longleftrightarrow> r = Some []" by (rule str_empty_iff)
  have n: "r = None \<longrightarrow> row_cells (ad' ! i) ! j = ''None''" using c by simp
  have t: "fst (trim_phase w order2 (a\<lparr>adapters := ad'\<rparr>)) ! i =
             Submit_trim_se (fastqs a ! i ! 0, str r, min_trim_len a, err_rate a, out_dir a)"
    if s: "\<not> paired_end a"
  proof -
    from j s have j0: "j = 0" by (simp add: arity_def)
    note F = detect_phase_frame [OF v run]
    have v': "valid_shape (paired_end a) (fastqs a) ad'"
      using v F(1) F(2) by (rule valid_shape_update)
    have "fst (trim_phase w order2 (a\<lparr>adapters := ad'\<rparr>)) =
            map Submit_trim_se (map (se_task_of (a\<lparr>adapters := ad'\<rparr>)) [0..<length (fastqs a)])"
      using trim_phase_events_valid [OF v', of w order2] s by simp
    then have "fst (trim_phase w order2 (a\<lparr>adapters := ad'\<rparr>)) ! i =
            Submit_trim_se (se_task_of (a\<lparr>adapters := ad'\<rparr>) i)"
      using i by simp
    then show ?thesis using c j0 by (simp add: se_task_of_def)
  qed
  have l: "(\<exists>l. fst (trim_adapter_se w (fastqs a ! i ! 0) (str r)
                       (min_trim_len a) (err_rate a) (out_dir a))
                  = [Link (fastqs a ! i ! 0) l]) \<longleftrightarrow> r = Some []"
    by (cases "str r = []") (simp_all add: trim_adapter_se_def Let_def str_empty_iff)
  have sh: "\<not> paired_end a \<and> r = None \<longrightarrow>
              fst (trim_adapter_se w (fastqs a ! i ! 0) (str r)
                     (min_trim_len a) (err_rate a) (out_dir a)) =
                [Shell (''cutadapt '' @ min_len_opt (min_trim_len a) @ '' -e ''
                          @ err_rate a @ '' -a None '' @ fastqs a ! i ! 0
                          @ '' | gzip -nc > ''
                          @ path_join (out_dir a)
                              (basename (strip_ext_fastq w (fastqs a ! i ! 0)))
                          @ ''.trim.fastq.gz'')]"
    by (simp add: trim_adapter_se_def Let_def)
  have pe1: "(\<exists>c. Shell c \<in> set (fst (trim_adapter_pe w f1 f2 (str None) a2 m e d)))
                  \<longleftrightarrow> a2 \<noteq> []"
    by (cases "a2 = []") (auto simp: trim_adapter_pe_def Let_def split: option.splits)
  have pe2: "(\<exists>c. Shell c \<in> set (fst (trim_adapter_pe w f1 f2 a1 (str None) m e d)))
                  \<longleftrightarrow> a1 \<noteq> []"
    by (cases "a1 = []") (auto simp: trim_adapter_pe_def Let_def split: option.splits)
  show ?thesis
    apply (intro conjI)
    subgoal
      apply (rule exI [of _ r])
      apply (intro conjI)
      subgoal by (rule d)
      subgoal by (rule c)
      subgoal by (rule e)
      subgoal by (rule n)
      subgoal using t by blast
      subgoal using l by blast
      subgoal by (rule sh)
      done
    subgoal by (rule pe1)
    subgoal by (rule pe2)
    done
qed

text \<open>
  The theorem on the second row of a single-end batch of two rows without adapters, the
  detector returning \<open>None\<close> for the row's file, the detection tasks finishing in
  reverse order.
\<close>

theorem detected_adapter_recorded_as_text_witness:
  "valid_shape (paired_end sample_args_se_auto) (fastqs sample_args_se_auto)
     (adapters sample_args_se_auto)
   \<and> snd (detect_phase sample_world [1, 0] sample_args_se_auto)
       = Inr [Cols [''None''], Cols [''None'']]
   \<and> detect_most_likely_adapter sample_world ''b.fastq.gz'' = Inr None
   \<and> row_cells ([Cols [''None''], Cols [''None'']] ! 1) ! 0 = ''None''
   \<and> fst (trim_phase sample_world []
            (sample_args_se_auto\<lparr>adapters := [Cols [''None''], Cols [''None'']]\<rparr>)) ! 1
       = Submit_trim_se (''b.fastq.gz'', ''None'', 5, ''0.1'', ''out'')"
proof -
  let ?a = sample_args_se_auto
  let ?ad = "[Cols [''None''], Cols [''None'']]"
  have "check_dimension (paired_end ?a) (fastqs ?a) (adapters ?a) = Inr ()"
    by code_simp
  then have v: "valid_shape (paired_end ?a) (fastqs ?a) (adapters ?a)"
    by (simp add: check_dimension_iff)
  have run: "snd (detect_phase sample_world [1, 0] ?a) = Inr ?ad" by code_simp
  have i: "1 < length (fastqs ?a)" by code_simp
  have rows: "detect_rows (auto_detect_adapter ?a) (adapters ?a) [0..<length (fastqs ?a)]
                = [0, 1]"
    by code_simp
  have p: "\<forall>k\<le>1. k \<in> set (detect_rows (auto_detect_adapter ?a) (adapters ?a)
                                [0..<length (fastqs ?a)])"
    unfolding rows by (auto simp: le_Suc_eq)
  have j: "0 < arity (paired_end ?a)" and s: "\<not> paired_end ?a" by code_simp+
  have f: "fastqs ?a ! 1 ! 0 = ''b.fastq.gz''" and m: "min_trim_len ?a = 5"
    and e: "err_rate ?a = ''0.1''" and o: "out_dir ?a = ''out''"
    and d: "detect_most_likely_adapter sample_world ''b.fastq.gz'' = Inr None"
    by code_simp+
  note T = detected_adapter_recorded_as_text [OF v run i p j, of "[]", THEN conjunct1]
  have "row_cells (?ad ! 1) ! 0 = ''None''
      \<and> fst (trim_phase sample_world [] (?a\<lparr>adapters := ?ad\<rparr>)) ! 1 =
           Submit_trim_se (''b.fastq.gz'', ''None'', 5, ''0.1'', ''out'')"
    using T
  proof (elim exE conjE)
    fix r
    assume r: "detect_most_likely_adapter sample_world (fastqs ?a ! 1 ! 0) = Inr r"
      and c: "row_cells (?ad ! 1) ! 0 = str r"
      and t: "\<not> paired_end ?a \<longrightarrow>
              fst (trim_phase sample_world [] (?a\<lparr>adapters := ?ad\<rparr>)) ! 1 =
                Submit_trim_se (fastqs ?a ! 1 ! 0, str r, min_trim_len ?a, err_rate ?a, out_dir ?a)"
    from r d have n: "r = None" unfolding f by simp
    from t s have "fst (trim_phase sample_world [] (?a\<lparr>adapters := ?ad\<rparr>)) ! 1 =
                Submit_trim_se (fastqs ?a ! 1 ! 0, str r, min_trim_len ?a, err_rate ?a, out_dir ?a)"
      by (rule mp)
    then have "fst (trim_phase sample_world [] (?a\<lparr>adapters := ?ad\<rparr>)) ! 1 =
           Submit_trim_se (''b.fastq.gz'', ''None'', 5, ''0.1'', ''out'')"
      unfolding f m e o n by simp
    moreover from c n have "row_cells (?ad ! 1) ! 0 = ''None''" by simp
    ultimately show ?thesis by (rule conjI [rotated])
  qed
  with v run d show ?thesis by (intro conjI) (rule v, rule run, rule d, simp_all)
qed

text \<open>
  Claim C3 as stated fails: in a single-end run with auto-detection where the detector
  returns \<open>None\<close> for the file, the trim task is submitted with the adapter
  \<open>None\<close>, the manifest names a trimmed file, and the task's action is the shell
  command, not the hard link.  And in the single-end batch whose first row has the adapter
  \<open>AGATCG\<close> and whose second row has none, the \<open>None\<close> returned for the second
  row's file is recorded in the first row (lines 182-186): the second row keeps the empty
  adapter, and the first is submitted for trimming with \<open>None\<close>.
\<close>

theorem none_sentinel_is_trimmed:
  "detect_most_likely_adapter sample_world ''b.fastq.gz'' = Inr None
   \<and> main sample_world [0] [0]
        \<lparr> cl_fastqs = [''b.fastq.gz''], cl_adapters = None,
          cl_auto_detect_adapter = True, cl_min_trim_len = 5, cl_err_rate = ''0.1'',
          cl_paired_end = False, cl_nth = 1, cl_out_dir = ''out'', cl_out_tsv = ''out.tsv'' \<rparr>
     = ([Mkdir ''out'', Pool 1, Submit_detect ''b.fastq.gz'',
         Submit_trim_se (''b.fastq.gz'', ''None'', 5, ''0.1'', ''out''),
         Write_tsv ''out/out.tsv'' [[''out/b.trim.fastq.gz'']]], Inr ())
   \<and> fst (trim_adapter_se sample_world ''b.fastq.gz'' ''None'' 5 ''0.1'' ''out'')
     = [Shell ''cutadapt -m 5 -e 0.1 -a None b.fastq.gz | gzip -nc > out/b.trim.fastq.gz'']
   \<and> snd (detect_phase sample_world [0]
          \<lparr> fastqs = [[''a.fastq.gz''], [''b.fastq.gz'']],
            adapters = [Cols [''AGATCG''], Cols ['''']],
            auto_detect_adapter = True, min_trim_len = 5, err_rate = ''0.1'',
            paired_end = False, nth = 4, out_dir = ''out'', out_tsv = ''out.tsv'' \<rparr>)
     = Inr [Cols [''None''], Cols ['''']]
   \<and> fst (trim_phase sample_world [0, 1]
          \<lparr> fastqs = [[''a.fastq.gz''], [''b.fastq.gz'']],
            adapters = [Cols [''None''], Cols ['''']],
            auto_detect_adapter = True, min_trim_len = 5, err_rate = ''0.1'',
            paired_end = False, nth = 4, out_dir = ''out'', out_tsv = ''out.tsv'' \<rparr>)
     = [Submit_trim_se (''a.fastq.gz'', ''None'', 5, ''0.1'', ''out''),
        Submit_trim_se (''b.fastq.gz'', '''', 5, ''0.1'', ''out'')]"
  by code_simp

text \<open>
  Claim C4.  A single-end trim call with a non-empty adapter attempts exactly one action, the
  shell command \<open>cutadapt [-m N] -e E -a ADAPTER FASTQ | gzip -nc > TRIMMED\<close>: the
  \<open>-m\<close> filter is there if and only if the minimum length is greater than 0, the error
  rate and the adapter are always there, and the path returned when the command succeeds
  is \<open>os.path.join(out_dir, basename(strip_ext_fastq(fastq)))\<close> followed by
  \<open>.trim.fastq.gz\<close>.  With an empty adapter the only action is the hard link, no command
  is built, and the path returned is \<open>os.path.join(out_dir, basename(fastq))\<close>.  For an
  output directory that is not empty and does not end in a slash, the two paths are
  \<open>out_dir/basename\<close> literally.
\<close>

theorem trim_adapter_se_contract:
  "(let trimmed = path_join odir (basename (strip_ext_fastq w fastq)) @ ''.trim.fastq.gz'';
        linked = path_join odir (basename fastq);
        cmd = ''cutadapt '' @ (if 0 < m then ''-m '' @ str_int m else []) @ '' -e '' @ e
                @ '' -a '' @ adapter @ '' '' @ fastq @ '' | gzip -nc > '' @ trimmed
    in (adapter \<noteq> [] \<longrightarrow>
          trim_adapter_se w fastq adapter m e odir =
            ([Shell cmd], case run_shell_cmd w cmd of Some err \<Rightarrow> Inl err | None \<Rightarrow> Inr trimmed)
          \<and> (prefix ''cutadapt -m '' cmd \<longleftrightarrow> 0 < m)
          \<and> sublist ('' -e '' @ e @ '' -a '' @ adapter @ '' '') cmd) \<and>
       (adapter = [] \<longrightarrow>
          trim_adapter_se w fastq adapter m e odir =
            ([Link fastq linked],
             case os_link w fastq linked of Some err \<Rightarrow> Inl err | None \<Rightarrow> Inr linked)) \<and>
       (odir \<noteq> [] \<and> \<not> endswith odir ''/'' \<longrightarrow>
          trimmed = odir @ ''/'' @ basename (strip_ext_fastq w fastq) @ ''.trim.fastq.gz'' \<and>
          linked = odir @ ''/'' @ basename fastq))"
proof -
  let ?opt = "if 0 < m then ''-m '' @ str_int m else []"
  let ?tail = "fastq @ '' | gzip -nc > ''
      @ path_join odir (basename (strip_ext_fastq w fastq)) @ ''.trim.fastq.gz''"
  have "sublist ('' -e '' @ e @ '' -a '' @ adapter @ '' '')
          ((''cutadapt '' @ ?opt) @ ('' -e '' @ e @ '' -a '' @ adapter @ '' '') @ ?tail)"
    by (rule sublist_appendI)
  then have sub: "sublist ('' -e '' @ e @ '' -a '' @ adapter @ '' '')
          (''cutadapt '' @ ?opt @ '' -e '' @ e @ '' -a '' @ adapter @ '' '' @ ?tail)"
    by (simp only: append_assoc)
  have pre: "prefix ''cutadapt -m '' (''cutadapt '' @ ?opt @ '' -e '' @ rest) \<longleftrightarrow> 0 < m" for rest
    by simp
  show ?thesis
    unfolding Let_def
    apply (intro conjI impI)
    subgoal by (simp add: trim_adapter_se_def min_len_opt_def Let_def)
    subgoal by (rule pre)
    subgoal by (rule sub)
    subgoal by (simp add: trim_adapter_se_def Let_def)
    subgoal by (simp add: path_join_basename)
    subgoal by (simp add: path_join_basename)
    done
qed

text \<open>
  The theorem at a call with an adapter and at a call without one.
\<close>

theorem trim_adapter_se_contract_witness:
  "''AGATCG'' \<noteq> [] \<and> ''out'' \<noteq> [] \<and> \<not> endswith ''out'' ''/'' \<and>
   trim_adapter_se sample_world ''in/a.fastq.gz'' ''AGATCG'' 5 ''0.1'' ''out'' =
     ([Shell ''cutadapt -m 5 -e 0.1 -a AGATCG in/a.fastq.gz | gzip -nc > out/a.trim.fastq.gz''],
      Inr ''out/a.trim.fastq.gz'') \<and>
   trim_adapter_se sample_world ''in/a.fastq.gz'' [] 5 ''0.1'' ''out'' =
     ([Link ''in/a.fastq.gz'' ''out/a.fastq.gz''], Inr ''out/a.fastq.gz'')"
proof -
  have e: "\<not> endswith ''out'' ''/''" by code_simp
  have s: "strip_ext_fastq sample_world ''in/a.fastq.gz'' = ''in/a''" by code_simp
  have b: "basename ''in/a'' = ''a''" "basename ''in/a.fastq.gz'' = ''a.fastq.gz''"
    by code_simp+
  have m: "str_int 5 = ''5''" by code_simp
  have r: "run_shell_cmd sample_world c = None" "os_link sample_world x y = None" for c x y
    by (simp_all add: sample_world_def)
  have j: "path_join ''out'' ''a'' = ''out/a''" "path_join ''out'' ''a.fastq.gz'' = ''out/a.fastq.gz''"
    by code_simp+
  from trim_adapter_se_contract [of "''out''" sample_world "''in/a.fastq.gz''" 5 "''0.1''" "''AGATCG''"]
  have 1: "trim_adapter_se sample_world ''in/a.fastq.gz'' ''AGATCG'' 5 ''0.1'' ''out'' =
     ([Shell ''cutadapt -m 5 -e 0.1 -a AGATCG in/a.fastq.gz | gzip -nc > out/a.trim.fastq.gz''],
      Inr ''out/a.trim.fastq.gz'')"
    by (simp add: Let_def s b m r j)
  from trim_adapter_se_contract [of "''out''" sample_world "''in/a.fastq.gz''" 5 "''0.1''" "[]"]
  have 2: "trim_adapter_se sample_world ''in/a.fastq.gz'' [] 5 ''0.1'' ''out'' =
     ([Link ''in/a.fastq.gz'' ''out/a.fastq.gz''], Inr ''out/a.fastq.gz'')"
    by (simp add: Let_def s b m r j)
  from e 1 2 show ?thesis by simp
qed

text \<open>
  Claim C5.  A paired-end trim call runs the shell command if and only if both adapters are
  non-empty; the command then names both adapters, both inputs and both outputs.  If either
  adapter is empty the only actions are hard links, first mate first, named by the original
  basenames (the second link is not attempted when the first fails).  A returned pair is
  always [path of read 1, path of read 2].
\<close>

theorem trim_adapter_pe_contract:
  "(let r = trim_adapter_pe w fastq1 fastq2 adapter1 adapter2 m e odir;
        trimmed1 = path_join odir (basename (strip_ext_fastq w fastq1)) @ ''.trim.fastq.gz'';
        trimmed2 = path_join odir (basename (strip_ext_fastq w fastq2)) @ ''.trim.fastq.gz'';
        linked1 = path_join odir (basename fastq1);
        linked2 = path_join odir (basename fastq2);
        cmd = ''cutadapt '' @ (if 0 < m then ''-m '' @ str_int m else []) @ '' -e '' @ e
                @ '' -a '' @ adapter1 @ '' -A '' @ adapter2 @ '' '' @ fastq1 @ '' '' @ fastq2
                @ '' -o '' @ trimmed1 @ '' -p '' @ trimmed2
    in ((\<exists>c. Shell c \<in> set (fst r)) \<longleftrightarrow> adapter1 \<noteq> [] \<and> adapter2 \<noteq> []) \<and>
       (adapter1 \<noteq> [] \<and> adapter2 \<noteq> [] \<longrightarrow>
          r = ([Shell cmd],
               case run_shell_cmd w cmd of Some err \<Rightarrow> Inl err | None \<Rightarrow> Inr [trimmed1, trimmed2])) \<and>
       (adapter1 = [] \<or> adapter2 = [] \<longrightarrow>
          r = (case os_link w fastq1 linked1 of
                 Some err \<Rightarrow> ([Link fastq1 linked1], Inl err)
               | None \<Rightarrow>
                   ([Link fastq1 linked1, Link fastq2 linked2],
                    case os_link w fastq2 linked2 of
                      Some err \<Rightarrow> Inl err
                    | None \<Rightarrow> Inr [linked1, linked2]))) \<and>
       (\<forall>ps. snd r = Inr ps \<longrightarrow>
          ps = (if adapter1 \<noteq> [] \<and> adapter2 \<noteq> [] then [trimmed1, trimmed2]
                else [linked1, linked2])))"
proof (cases "adapter1 \<noteq> [] \<and> adapter2 \<noteq> []")
  case True
  then show ?thesis
    by (simp add: trim_adapter_pe_def min_len_opt_def Let_def split: option.splits)
next
  case False
  then show ?thesis
    by (auto simp: trim_adapter_pe_def Let_def split: option.splits)
qed

text \<open>
  The theorem at a call with both adapters and at a call where the second is empty.
\<close>

theorem trim_adapter_pe_contract_witness:
  "trim_adapter_pe sample_world ''a_1.fastq.gz'' ''a_2.fastq.gz'' ''AGATCG'' ''CTGTCT'' 5 ''0.1'' ''out'' =
     ([Shell ''cutadapt -m 5 -e 0.1 -a AGATCG -A CTGTCT a_1.fastq.gz a_2.fastq.gz -o out/a_1.trim.fastq.gz -p out/a_2.trim.fastq.gz''],
      Inr [''out/a_1.trim.fastq.gz'', ''out/a_2.trim.fastq.gz'']) \<and>
   trim_adapter_pe sample_world ''a_1.fastq.gz'' ''a_2.fastq.gz'' ''AGATCG'' [] 5 ''0.1'' ''out'' =
     ([Link ''a_1.fastq.gz'' ''out/a_1.fastq.gz'', Link ''a_2.fastq.gz'' ''out/a_2.fastq.gz''],
      Inr [''out/a_1.fastq.gz'', ''out/a_2.fastq.gz''])"
proof -
  have s: "strip_ext_fastq sample_world ''a_1.fastq.gz'' = ''a_1''"
    "strip_ext_fastq sample_world ''a_2.fastq.gz'' = ''a_2''" by code_simp+
  have b: "basename ''a_1'' = ''a_1''" "basename ''a_2'' = ''a_2''"
    "basename ''a_1.fastq.gz'' = ''a_1.fastq.gz''" "basename ''a_2.fastq.gz'' = ''a_2.fastq.gz''"
    by code_simp+
  have m: "str_int 5 = ''5''" by code_simp
  have r: "run_shell_cmd sample_world c = None" "os_link sample_world x y = None" for c x y
    by (simp_all add: sample_world_def)
  have j: "path_join ''out'' ''a_1'' = ''out/a_1''" "path_join ''out'' ''a_2'' = ''out/a_2''"
    "path_join ''out'' ''a_1.fastq.gz'' = ''out/a_1.fastq.gz''"
    "path_join ''out'' ''a_2.fastq.gz'' = ''out/a_2.fastq.gz''"
    by code_simp+
  from trim_adapter_pe_contract [of sample_world "''a_1.fastq.gz''" "''a_2.fastq.gz''"
      "''AGATCG''" "''CTGTCT''" 5 "''0.1''" "''out''",
      unfolded Let_def, THEN conjunct2, THEN conjunct1]
  have 1: "trim_adapter_pe sample_world ''a_1.fastq.gz'' ''a_2.fastq.gz'' ''AGATCG'' ''CTGTCT'' 5 ''0.1'' ''out'' =
     ([Shell ''cutadapt -m 5 -e 0.1 -a AGATCG -A CTGTCT a_1.fastq.gz a_2.fastq.gz -o out/a_1.trim.fastq.gz -p out/a_2.trim.fastq.gz''],
      Inr [''out/a_1.trim.fastq.gz'', ''out/a_2.trim.fastq.gz''])"
    by (simp add: s b m r j)
  from trim_adapter_pe_contract [of sample_world "''a_1.fastq.gz''" "''a_2.fastq.gz''"
      "''AGATCG''" "[]" 5 "''0.1''" "''out''",
      unfolded Let_def, THEN conjunct2, THEN conjunct2, THEN conjunct1]
  have 2: "trim_adapter_pe sample_world ''a_1.fastq.gz'' ''a_2.fastq.gz'' ''AGATCG'' [] 5 ''0.1'' ''out'' =
     ([Link ''a_1.fastq.gz'' ''out/a_1.fastq.gz'', Link ''a_2.fastq.gz'' ''out/a_2.fastq.gz''],
      Inr [''out/a_1.fastq.gz'', ''out/a_2.fastq.gz''])"
    by (simp add: s b m r j)
  from 1 2 show ?thesis by simp
qed

text \<open>
  Claim C6, as the code has it.  Every pair of matrices that violates the shape contract
  (outer lengths differ, a row of FASTQs whose length is not the arity of the mode, or a
  row whose FASTQ count differs from its adapter count) is rejected by the check of lines
  72-85 with an \<open>ArgumentTypeError\<close> whose message is one of the three fixed texts.
  For a command line whose adapters are absent or are read from a TSV, the matrices checked
  are the FASTQ matrix as parsed from the command line (lines 52-56) and the adapter
  matrix as read, or as filled in by lines 65-70 when there is none; if that pair violates
  the contract, \<open>parse_arguments\<close> raises the error and \<open>main\<close> ends with it and an
  empty trace, so before the output directory is made, the pool is created or any task is
  submitted.  The FASTQ matrix with rows of two files and of one file is rejected in
  paired-end mode with the paired-end message, given adapters of two rows the first with
  two cells, or no adapters.  The error carries a message and nothing else: no group
  index.  Adapters given as inline tokens replace the FASTQ matrix before the check (line
  63); the theorem says nothing about them.
\<close>

theorem shape_violation_rejected:
  "(length ad \<noteq> length fq
      \<or> (\<exists>k<length fq. length (fq ! k) \<noteq> (if pe then 2 else 1)
            \<or> length (fq ! k) \<noteq> row_len (ad ! k))
    \<longrightarrow> (\<exists>msg\<in>{msg_mismatch, msg_need2, msg_need1}.
           check_dimension pe fq ad = Inl (ArgumentTypeError msg)))
   \<and> (parse_fastqs w (cl_fastqs c) = Inr fq0
       \<and> \<not> (\<exists>t ts. cl_adapters c = Some (t # ts) \<and> \<not> path_exists w t)
       \<and> parse_adapters w fq0 (cl_adapters c) = Inr (fq1, ad0)
       \<and> (length (fill_adapters fq0 ad0) \<noteq> length fq0
            \<or> (\<exists>k<length fq0. length (fq0 ! k) \<noteq> (if cl_paired_end c then 2 else 1)
                  \<or> length (fq0 ! k) \<noteq> row_len (fill_adapters fq0 ad0 ! k)))
      \<longrightarrow> fq1 = fq0
          \<and> (\<exists>msg\<in>{msg_mismatch, msg_need2, msg_need1}.
                parse_arguments w c = Inl (ArgumentTypeError msg)
                \<and> main w o1 o2 c = ([], Inl (ArgumentTypeError msg))))
   \<and> (length ad2 = 2 \<and> row_len (ad2 ! 0) = 2
      \<longrightarrow> check_dimension True [[f1, f2], [g1]] ad2 = Inl (ArgumentTypeError msg_need2))
   \<and> (parse_fastqs w (cl_fastqs c) = Inr [[f1, f2], [g1]]
       \<and> (cl_adapters c = None \<or> cl_adapters c = Some []) \<and> cl_paired_end c
      \<longrightarrow> main w o1 o2 c = ([], Inl (ArgumentTypeError msg_need2)))"
proof -
  have A: "length ad \<noteq> length fq
      \<or> (\<exists>k<length fq. length (fq ! k) \<noteq> (if pe then 2 else 1)
            \<or> length (fq ! k) \<noteq> row_len (ad ! k))
    \<longrightarrow> (\<exists>msg\<in>{msg_mismatch, msg_need2, msg_need1}.
           check_dimension pe fq ad = Inl (ArgumentTypeError msg))"
    by (rule impI) (rule check_dimension_rejects)
  have B: "parse_fastqs w (cl_fastqs c) = Inr fq0
       \<and> \<not> (\<exists>t ts. cl_adapters c = Some (t # ts) \<and> \<not> path_exists w t)
       \<and> parse_adapters w fq0 (cl_adapters c) = Inr (fq1, ad0)
       \<and> (length (fill_adapters fq0 ad0) \<noteq> length fq0
            \<or> (\<exists>k<length fq0. length (fq0 ! k) \<noteq> (if cl_paired_end c then 2 else 1)
                  \<or> length (fq0 ! k) \<noteq> row_len (fill_adapters fq0 ad0 ! k)))
      \<longrightarrow> fq1 = fq0
          \<and> (\<exists>msg\<in>{msg_mismatch, msg_need2, msg_need1}.
                parse_arguments w c = Inl (ArgumentTypeError msg)
                \<and> main w o1 o2 c = ([], Inl (ArgumentTypeError msg)))"
  proof (rule impI)
  assume h: "parse_fastqs w (cl_fastqs c) = Inr fq0
       \<and> \<not> (\<exists>t ts. cl_adapters c = Some (t # ts) \<and> \<not> path_exists w t)
       \<and> parse_adapters w fq0 (cl_adapters c) = Inr (fq1, ad0)
       \<and> (length (fill_adapters fq0 ad0) \<noteq> length fq0
            \<or> (\<exists>k<length fq0. length (fq0 ! k) \<noteq> (if cl_paired_end c then 2 else 1)
                  \<or> length (fq0 ! k) \<noteq> row_len (fill_adapters fq0 ad0 ! k)))"
  from h have pf: "parse_fastqs w (cl_fastqs c) = Inr fq0" by (rule conjunct1)
  from h have ni: "\<not> (\<exists>t ts. cl_adapters c = Some (t # ts) \<and> \<not> path_exists w t)"
    by (elim conjE)
  from h have pa: "parse_adapters w fq0 (cl_adapters c) = Inr (fq1, ad0)" by (elim conjE)
  from h have viol: "length (fill_adapters fq0 ad0) \<noteq> length fq0
            \<or> (\<exists>k<length fq0. length (fq0 ! k) \<noteq> (if cl_paired_end c then 2 else 1)
                  \<or> length (fq0 ! k) \<noteq> row_len (fill_adapters fq0 ad0 ! k))"
    by (elim conjE)
  from pa ni have eq: "fq1 = fq0" by (rule parse_adapters_not_inline)
  from check_dimension_rejects [OF viol] obtain msg where
    m: "msg \<in> {msg_mismatch, msg_need2, msg_need1}"
    and cd: "check_dimension (cl_paired_end c) fq0 (fill_adapters fq0 ad0)
               = Inl (ArgumentTypeError msg)"
    by (elim bexE)
  have p: "parse_arguments w c = Inl (ArgumentTypeError msg)"
    using pf pa cd unfolding eq by (simp add: parse_arguments_def)
  from p have mn: "main w o1 o2 c = ([], Inl (ArgumentTypeError msg))"
    by (rule main_parse_error)
  from m p mn have "\<exists>msg\<in>{msg_mismatch, msg_need2, msg_need1}.
                parse_arguments w c = Inl (ArgumentTypeError msg)
                \<and> main w o1 o2 c = ([], Inl (ArgumentTypeError msg))"
    by (intro bexI [of _ msg] conjI)
  with eq show "fq1 = fq0
          \<and> (\<exists>msg\<in>{msg_mismatch, msg_need2, msg_need1}.
                parse_arguments w c = Inl (ArgumentTypeError msg)
                \<and> main w o1 o2 c = ([], Inl (ArgumentTypeError msg)))"
    by (rule conjI)
  qed
  have C: "length ad2 = 2 \<and> row_len (ad2 ! 0) = 2
      \<longrightarrow> check_dimension True [[f1, f2], [g1]] ad2 = Inl (ArgumentTypeError msg_need2)"
    by (simp add: check_dimension_def index_def)
  have D: "parse_fastqs w (cl_fastqs c) = Inr [[f1, f2], [g1]]
       \<and> (cl_adapters c = None \<or> cl_adapters c = Some []) \<and> cl_paired_end c
      \<longrightarrow> main w o1 o2 c = ([], Inl (ArgumentTypeError msg_need2))"
  proof (rule impI)
  assume h: "parse_fastqs w (cl_fastqs c) = Inr [[f1, f2], [g1]]
       \<and> (cl_adapters c = None \<or> cl_adapters c = Some []) \<and> cl_paired_end c"
  then have pa: "parse_adapters w [[f1, f2], [g1]] (cl_adapters c)
                   = Inr ([[f1, f2], [g1]], cl_adapters_rows)"
    if "cl_adapters_rows = (case cl_adapters c of None \<Rightarrow> None | Some _ \<Rightarrow> Some [])"
    for cl_adapters_rows
    using that by (auto simp: parse_adapters_def)
  have fa: "fill_adapters [[f1, f2], [g1]]
              (case cl_adapters c of None \<Rightarrow> None | Some _ \<Rightarrow> Some [])
            = [Cols [[], []], Cols [[]]]"
    using h by (auto simp: fill_adapters_def)
  have "parse_arguments w c = Inl (ArgumentTypeError msg_need2)"
    using h pa [OF refl] fa by (simp add: parse_arguments_def check_dimension_def index_def)
  then show "main w o1 o2 c = ([], Inl (ArgumentTypeError msg_need2))"
    by (rule main_parse_error)
  qed
  show ?thesis by (rule conjI [OF A conjI [OF B conjI [OF C D]]])
qed

text \<open>
  The theorem on the FASTQ TSV with rows of two files and of one file in paired-end mode,
  no adapters given: the second row violates the contract and \<open>main\<close> ends with the
  paired-end message and an empty trace.
\<close>

theorem shape_violation_rejected_witness:
  "parse_fastqs ragged_world (cl_fastqs (sample_cmdline\<lparr>cl_adapters := None\<rparr>))
     = Inr [[''a_1.fastq.gz'', ''a_2.fastq.gz''], [''b_1.fastq.gz'']]
   \<and> (\<exists>k<length [[''a_1.fastq.gz'', ''a_2.fastq.gz''], [''b_1.fastq.gz'']].
         length ([[''a_1.fastq.gz'', ''a_2.fastq.gz''], [''b_1.fastq.gz'']] ! k) \<noteq> 2)
   \<and> (\<exists>msg\<in>{msg_mismatch, msg_need2, msg_need1}.
         parse_arguments ragged_world (sample_cmdline\<lparr>cl_adapters := None\<rparr>)
           = Inl (ArgumentTypeError msg)
         \<and> main ragged_world [] [] (sample_cmdline\<lparr>cl_adapters := None\<rparr>)
           = ([], Inl (ArgumentTypeError msg)))
   \<and> main ragged_world [] [] (sample_cmdline\<lparr>cl_adapters := None\<rparr>)
       = ([], Inl (ArgumentTypeError msg_need2))"
proof -
  let ?c = "sample_cmdline\<lparr>cl_adapters := None\<rparr>"
  let ?fq = "[[''a_1.fastq.gz'', ''a_2.fastq.gz''], [''b_1.fastq.gz'']]"
  have pf: "parse_fastqs ragged_world (cl_fastqs ?c) = Inr ?fq" by code_simp
  have ca: "cl_adapters ?c = None" and pe: "cl_paired_end ?c" by code_simp+
  have ni: "\<not> (\<exists>t ts. cl_adapters ?c = Some (t # ts) \<and> \<not> path_exists ragged_world t)"
    by (simp only: ca) simp
  have pa: "parse_adapters ragged_world ?fq (cl_adapters ?c) = Inr (?fq, None)"
    by code_simp
  have fa: "fill_adapters ?fq None = [Cols [[], []], Cols [[]]]" by code_simp
  have k: "\<exists>k<length ?fq. length (?fq ! k) \<noteq> 2"
    by (rule exI [of _ 1]) simp
  have viol: "length (fill_adapters ?fq None) \<noteq> length ?fq
            \<or> (\<exists>k<length ?fq. length (?fq ! k) \<noteq> (if cl_paired_end ?c then 2 else 1)
                  \<or> length (?fq ! k) \<noteq> row_len (fill_adapters ?fq None ! k))"
    by (rule disjI2, rule exI [of _ 1]) (simp add: pe)
  note T = shape_violation_rejected [where w = ragged_world and c = ?c and ?fq0.0 = ?fq
      and ?fq1.0 = ?fq and ?ad0.0 = None and ?o1.0 = "[]" and ?o2.0 = "[]"
      and ?f1.0 = "''a_1.fastq.gz''" and ?f2.0 = "''a_2.fastq.gz''"
      and ?g1.0 = "''b_1.fastq.gz''"]
  from T [THEN conjunct2, THEN conjunct1, THEN mp,
      OF conjI [OF pf conjI [OF ni conjI [OF pa viol]]]]
  have m: "\<exists>msg\<in>{msg_mismatch, msg_need2, msg_need1}.
         parse_arguments ragged_world ?c = Inl (ArgumentTypeError msg)
         \<and> main ragged_world [] [] ?c = ([], Inl (ArgumentTypeError msg))"
    by (rule conjunct2)
  from T [THEN conjunct2, THEN conjunct2, THEN conjunct2, THEN mp,
      OF conjI [OF pf conjI [OF disjI1 [OF ca] pe]]]
  have n: "main ragged_world [] [] ?c = ([], Inl (ArgumentTypeError msg_need2))" .
  show ?thesis by (rule conjI [OF pf conjI [OF k conjI [OF m n]]])
qed

text \<open>
  Claim C6 as stated fails: the error for the matrix with row lengths 2 and 1, whose
  offending row is the second, is the same value as the error for the matrix with row
  lengths 1 and 2, whose offending row is the first.  And with two inline FASTQs and the
  one inline adapter \<open>A\<close> in single-end mode, a pair of outer lengths 2 and 1, nothing
  is rejected: the adapter token has become the FASTQ matrix, a trim task is submitted
  for it and the manifest is written.
\<close>

theorem shape_error_without_group_index:
  "check_dimension True [[''a_1.fastq.gz'', ''a_2.fastq.gz''], [''b_1.fastq.gz'']]
       [Cols ['''', ''''], Cols ['''']]
     = Inl (ArgumentTypeError ''Need 2 fastqs per replicate for paired end.'')
   \<and> check_dimension True [[''b_1.fastq.gz''], [''a_1.fastq.gz'', ''a_2.fastq.gz'']]
       [Cols [''''], Cols ['''', '''']]
     = Inl (ArgumentTypeError ''Need 2 fastqs per replicate for paired end.'')
   \<and> main sample_world [] [0]
       \<lparr> cl_fastqs = [''a.fastq.gz'', ''b.fastq.gz''], cl_adapters = Some [''A''],
         cl_auto_detect_adapter = False, cl_min_trim_len = 5, cl_err_rate = ''0.1'',
         cl_paired_end = False, cl_nth = 4, cl_out_dir = ''out'', cl_out_tsv = ''out.tsv'' \<rparr>
     = ([Mkdir ''out'', Pool 1, Submit_trim_se (''A'', ''A'', 5, ''0.1'', ''out''),
         Write_tsv ''out/out.tsv'' [[''out/A.trim.fastq.gz'']]], Inr ())"
  by code_simp

text \<open>
  Claim C7.  For every batch that passes \<open>parse_arguments\<close> and every run of \<open>main\<close>
  that ends without error, the manifest is written once, with one row for each input row;
  row \<open>i\<close> has as many columns as the arity of the batch, and column \<open>j\<close> of row
  \<open>i\<close> is the output path made from FASTQ \<open>j\<close> of input row \<open>i\<close> (its basename
  in the output directory, as it is or with \<open>.trim.fastq.gz\<close> in place of the FASTQ
  extension): rows and slots are in input order.  The completion order of the tasks is not
  observable: any other run, with any completion orders, that ends without error or in
  which every task completes, is the same run, with the same trace and the same manifest.
\<close>

theorem manifest_rows_in_group_order:
  assumes p: "parse_arguments w c = Inr a"
    and run: "snd (main w o1 o2 c) = Inr ()"
  shows "\<exists>m. filter is_Write_tsv (fst (main w o1 o2 c))
               = [Write_tsv (path_join (out_dir a) (out_tsv a)) m]
           \<and> length m = length (fastqs a)
           \<and> (\<forall>i<length (fastqs a).
                 length (m ! i) = arity (paired_end a)
                 \<and> (\<forall>j<arity (paired_end a).
                       m ! i ! j \<in> {path_join (out_dir a) (basename (fastqs a ! i ! j)),
                                     path_join (out_dir a)
                                       (basename (strip_ext_fastq w (fastqs a ! i ! j)))
                                       @ ''.trim.fastq.gz''}))
           \<and> (\<forall>o1' o2'.
                 snd (main w o1' o2' c) = Inr ()
                 \<or> (set [0..<2 * length (fastqs a)] \<subseteq> set o1'
                     \<and> set [0..<length (fastqs a)] \<subseteq> set o2')
                 \<longrightarrow> main w o1' o2' c = main w o1 o2 c)"
proof -
  note v = parse_arguments_valid [OF p]
  from p run obtain ad m where
    d: "snd (detect_phase w o1 a) = Inr ad"
    and t: "snd (trim_phase w o2 (a\<lparr>adapters := ad\<rparr>)) = Inr m"
    and tr: "main w o1 o2 c =
         (Mkdir (out_dir a) # Pool (num_process a) # fst (detect_phase w o1 a)
            @ fst (trim_phase w o2 (a\<lparr>adapters := ad\<rparr>))
            @ [Write_tsv (path_join (out_dir a) (out_tsv a)) m], Inr ())"
    by (cases rule: main_cases [where ?o1.0 = o1 and ?o2.0 = o2]) simp_all
  note v' = detect_phase_keeps_shape [OF v d]
  have w1: "filter is_Write_tsv (fst (main w o1 o2 c))
               = [Write_tsv (path_join (out_dir a) (out_tsv a)) m]"
    unfolding tr by (simp add: detect_phase_only_detect trim_phase_only_trim)
  have len: "length m = length (fastqs a)"
  proof (cases "paired_end a")
    case True
    then have "paired_end (a\<lparr>adapters := ad\<rparr>)" by simp
    from trim_phase_rows_pe [OF v' this t] show ?thesis by simp
  next
    case False
    then have "\<not> paired_end (a\<lparr>adapters := ad\<rparr>)" by simp
    from trim_phase_rows_se [OF v' this t] show ?thesis by simp
  qed
  have rows: "length (m ! i) = arity (paired_end a)
                 \<and> (\<forall>j<arity (paired_end a).
                       m ! i ! j \<in> {path_join (out_dir a) (basename (fastqs a ! i ! j)),
                                     path_join (out_dir a)
                                       (basename (strip_ext_fastq w (fastqs a ! i ! j)))
                                       @ ''.trim.fastq.gz''})"
    if i: "i < length (fastqs a)" for i
  proof -
    from i have "i < length (fastqs (a\<lparr>adapters := ad\<rparr>))" by simp
    from trim_rows_paths [OF v' t this] show ?thesis by simp
  qed
  have agree: "main w o1' o2' c = main w o1 o2 c"
    if "snd (main w o1' o2' c) = Inr ()
                 \<or> (set [0..<2 * length (fastqs a)] \<subseteq> set o1'
                     \<and> set [0..<length (fastqs a)] \<subseteq> set o2')" for o1' o2'
    using p run that by (rule main_agree)
  from w1 len rows agree show ?thesis by blast
qed

text \<open>
  The theorem on the single-end batch of two rows with the trim tasks completing in
  reverse order: two rows of one hard-linked path each, in input order, and the same run
  as with the tasks completing in order.
\<close>

theorem manifest_rows_in_group_order_witness:
  "parse_arguments sample_world sample_cmdline_se =
     Inr \<lparr> fastqs = [[''a.fastq.gz''], [''b.fastq.gz'']], adapters = [Cols [[]], Cols [[]]],
           auto_detect_adapter = False, min_trim_len = 5, err_rate = ''0.1'',
           paired_end = False, nth = 4, out_dir = ''out'', out_tsv = ''out.tsv'' \<rparr>
   \<and> snd (main sample_world [] [1, 0] sample_cmdline_se) = Inr ()
   \<and> filter is_Write_tsv (fst (main sample_world [] [1, 0] sample_cmdline_se))
       = [Write_tsv ''out/out.tsv'' [[''out/a.fastq.gz''], [''out/b.fastq.gz'']]]
   \<and> main sample_world [] [0, 1] sample_cmdline_se = main sample_world [] [1, 0] sample_cmdline_se"
proof -
  let ?a = "\<lparr> fastqs = [[''a.fastq.gz''], [''b.fastq.gz'']], adapters = [Cols [[]], Cols [[]]],
           auto_detect_adapter = False, min_trim_len = 5, err_rate = ''0.1'',
           paired_end = False, nth = 4, out_dir = ''out'', out_tsv = ''out.tsv'' \<rparr>"
  have p: "parse_arguments sample_world sample_cmdline_se = Inr ?a" by code_simp
  have s: "snd (main sample_world [] [1, 0] sample_cmdline_se) = Inr ()" by code_simp
  have s': "snd (main sample_world [] [0, 1] sample_cmdline_se) = Inr ()" by code_simp
  have f: "filter is_Write_tsv (fst (main sample_world [] [1, 0] sample_cmdline_se))
       = [Write_tsv ''out/out.tsv'' [[''out/a.fastq.gz''], [''out/b.fastq.gz'']]]"
    by code_simp
  from manifest_rows_in_group_order [OF p s] obtain m where
    "\<forall>o1' o2'.
       snd (main sample_world o1' o2' sample_cmdline_se) = Inr ()
       \<or> (set [0..<2 * length (fastqs ?a)] \<subseteq> set o1' \<and> set [0..<length (fastqs ?a)] \<subseteq> set o2')
       \<longrightarrow> main sample_world o1' o2' sample_cmdline_se
           = main sample_world [] [1, 0] sample_cmdline_se"
    by blast
  with s' have "main sample_world [] [0, 1] sample_cmdline_se
                  = main sample_world [] [1, 0] sample_cmdline_se"
    by blast
  with p s f show ?thesis by blast
qed

text \<open>
  Claim C8.  A run of \<open>main\<close> that ends in an error writes no manifest.  A run that
  ends without error writes the manifest exactly once, as its last action, and every task
  it submitted, detection or trim, returned without raising.  If a submitted detection
  task raised, the run ends in an error, and no trim task is submitted and nothing is
  written; a raising trim task likewise ends the run in an error (second conjunct).  No
  task is submitted twice: at most one detection task per slot and one trim task per row.
\<close>

theorem all_or_nothing:
  "(snd (main w o1 o2 c) \<noteq> Inr () \<longrightarrow> filter is_Write_tsv (fst (main w o1 o2 c)) = [])
   \<and> (snd (main w o1 o2 c) = Inr () \<longrightarrow>
        (\<exists>pre p m. fst (main w o1 o2 c) = pre @ [Write_tsv p m] \<and> filter is_Write_tsv pre = [])
        \<and> (\<forall>f. Submit_detect f \<in> set (fst (main w o1 o2 c)) \<longrightarrow>
              (\<exists>r. detect_most_likely_adapter w f = Inr r))
        \<and> (\<forall>t. Submit_trim_se t \<in> set (fst (main w o1 o2 c)) \<longrightarrow> (\<exists>p. run_se w t = Inr p))
        \<and> (\<forall>u. Submit_trim_pe u \<in> set (fst (main w o1 o2 c)) \<longrightarrow> (\<exists>p. run_pe w u = Inr p)))
   \<and> ((\<exists>f e. Submit_detect f \<in> set (fst (main w o1 o2 c))
              \<and> detect_most_likely_adapter w f = Inl e) \<longrightarrow>
        (\<exists>e. snd (main w o1 o2 c) = Inl e)
        \<and> filter (\<lambda>ev. is_Submit_trim_se ev \<or> is_Submit_trim_pe ev \<or> is_Write_tsv ev)
             (fst (main w o1 o2 c)) = [])
   \<and> (\<forall>a. parse_arguments w c = Inr a \<longrightarrow>
        length (filter is_Submit_detect (fst (main w o1 o2 c)))
          \<le> arity (paired_end a) * length (fastqs a)
        \<and> length (filter (\<lambda>ev. is_Submit_trim_se ev \<or> is_Submit_trim_pe ev)
                     (fst (main w o1 o2 c))) \<le> length (fastqs a))"
  (is "?A \<and> ?B \<and> ?C \<and> ?D")
proof (cases "parse_arguments w c")
  case (Inl e)
  then have "main w o1 o2 c = ([], Inl e)" by (rule main_parse_error)
  with Inl show ?thesis by simp
next
  case (Inr a)
  note v = parse_arguments_valid [OF Inr]
  let ?d = "fst (detect_phase w o1 a)"
  have dd: "\<forall>ev\<in>set ?d. is_Submit_detect ev" by (rule detect_phase_events)
  have dl: "length (filter is_Submit_detect ?d) \<le> arity (paired_end a) * length (fastqs a)"
    using length_filter_le [of is_Submit_detect ?d] detect_phase_count [OF v, of w o1]
    by (rule order_trans)
  have dn: "filter is_Write_tsv ?d = []"
    "filter (\<lambda>ev. is_Submit_trim_se ev \<or> is_Submit_trim_pe ev) ?d = []"
    "filter (\<lambda>ev. is_Submit_trim_se ev \<or> is_Submit_trim_pe ev \<or> is_Write_tsv ev) ?d = []"
    using dd by (auto simp: filter_empty_conv)
  from Inr show ?thesis
  proof (cases rule: main_cases [where ?o1.0 = o1 and ?o2.0 = o2])
    case (mkdir_fail e)
    then show ?thesis using Inr by simp
  next
    case pool_fail
    then show ?thesis using Inr by simp
  next
    case (detect_fail e)
    have D: ?D using Inr detect_fail(4) dl dn by simp
    have A: ?A and B: ?B and C: ?C using detect_fail(4) dn by simp_all
    from A B C D show ?thesis by blast
  next
    case (trim_fail ad e)
    note v' = detect_phase_keeps_shape [OF v trim_fail(3)]
    let ?t = "fst (trim_phase w o2 (a\<lparr>adapters := ad\<rparr>))"
    have tt: "\<forall>ev\<in>set ?t. is_Submit_trim_se ev \<or> is_Submit_trim_pe ev"
      by (rule trim_phase_events)
    have tn: "filter is_Write_tsv ?t = []" "filter is_Submit_detect ?t = []"
      using tt by (auto simp: filter_empty_conv)
    have tl: "length (filter (\<lambda>ev. is_Submit_trim_se ev \<or> is_Submit_trim_pe ev) ?t)
                \<le> length (fastqs a)"
      using length_filter_le [of _ ?t] trim_phase_count [OF v', of w o2] by simp
    have ok: "\<exists>r. detect_most_likely_adapter w f = Inr r"
      if "Submit_detect f \<in> set (fst (main w o1 o2 c))" for f
    proof -
      from that tt have "Submit_detect f \<in> set ?d" unfolding trim_fail(5) by auto
      then show ?thesis by (rule detect_phase_submitted_ok [OF v trim_fail(3)])
    qed
    have A: ?A and B: ?B using trim_fail(5) dn tn by simp_all
    have C: ?C using ok by fastforce
    have D: ?D using Inr trim_fail(5) dl dn tn tl by simp
    from A B C D show ?thesis by blast
  next
    case (ok ad m)
    note v' = detect_phase_keeps_shape [OF v ok(3)]
    let ?t = "fst (trim_phase w o2 (a\<lparr>adapters := ad\<rparr>))"
    have tt: "\<forall>ev\<in>set ?t. is_Submit_trim_se ev \<or> is_Submit_trim_pe ev"
      by (rule trim_phase_events)
    have tn: "filter is_Write_tsv ?t = []" "filter is_Submit_detect ?t = []"
      using tt by (auto simp: filter_empty_conv)
    have tl: "length (filter (\<lambda>ev. is_Submit_trim_se ev \<or> is_Submit_trim_pe ev) ?t)
                \<le> length (fastqs a)"
      using length_filter_le [of _ ?t] trim_phase_count [OF v', of w o2] by simp
    have okd: "\<exists>r. detect_most_likely_adapter w f = Inr r"
      if "Submit_detect f \<in> set (fst (main w o1 o2 c))" for f
    proof -
      from that tt have "Submit_detect f \<in> set ?d" unfolding ok(5) by auto
      then show ?thesis by (rule detect_phase_submitted_ok [OF v ok(3)])
    qed
    have okse: "\<exists>p. run_se w t = Inr p"
      if "Submit_trim_se t \<in> set (fst (main w o1 o2 c))" for t
    proof -
      from that dd have "Submit_trim_se t \<in> set ?t" unfolding ok(5) by auto
      then show ?thesis by (rule trim_phase_submitted_ok(1) [OF v' ok(4)])
    qed
    have okpe: "\<exists>p. run_pe w u = Inr p"
      if "Submit_trim_pe u \<in> set (fst (main w o1 o2 c))" for u
    proof -
      from that dd have "Submit_trim_pe u \<in> set ?t" unfolding ok(5) by auto
      then show ?thesis by (rule trim_phase_submitted_ok(2) [OF v' ok(4)])
    qed
    have A: ?A using ok(5) by simp
    have "fst (main w o1 o2 c) =
            (Mkdir (out_dir a) # Pool (num_process a) # ?d @ ?t)
              @ [Write_tsv (path_join (out_dir a) (out_tsv a)) m]
          \<and> filter is_Write_tsv (Mkdir (out_dir a) # Pool (num_process a) # ?d @ ?t) = []"
      unfolding ok(5) by (simp add: dn tn)
    then have B1: "\<exists>pre p m. fst (main w o1 o2 c) = pre @ [Write_tsv p m]
                     \<and> filter is_Write_tsv pre = []"
      by blast
    have B: ?B using B1 okd okse okpe by blast
    have C: ?C using okd by fastforce
    have D: ?D using Inr ok(5) dl dn tn tl by simp
    from A B C D show ?thesis by blast
  qed
qed

text \<open>
  The theorem on three runs of the paired-end sample: the shell command fails, detection
  fails, and everything succeeds.
\<close>

theorem all_or_nothing_witness:
  "snd (main failing_trim_world [1, 0] [0] sample_cmdline) = Inl (External ''exit 1'')
   \<and> filter is_Write_tsv (fst (main failing_trim_world [1, 0] [0] sample_cmdline)) = []
   \<and> main failing_detect_world [1, 0] [0] sample_cmdline =
       ([Mkdir ''out'', Pool 2, Submit_detect ''a_1.fastq.gz'', Submit_detect ''a_2.fastq.gz''],
        Inl (External ''no reads''))
   \<and> filter (\<lambda>ev. is_Submit_trim_se ev \<or> is_Submit_trim_pe ev \<or> is_Write_tsv ev)
        (fst (main failing_detect_world [1, 0] [0] sample_cmdline)) = []
   \<and> snd (main sample_world [1, 0] [0] sample_cmdline) = Inr ()
   \<and> (\<exists>pre p m. fst (main sample_world [1, 0] [0] sample_cmdline) = pre @ [Write_tsv p m]
         \<and> filter is_Write_tsv pre = [])
   \<and> parse_arguments sample_world sample_cmdline = Inr sample_args
   \<and> length (filter is_Submit_detect (fst (main sample_world [1, 0] [0] sample_cmdline)))
        \<le> arity (paired_end sample_args) * length (fastqs sample_args)"
proof -
  have s1: "snd (main failing_trim_world [1, 0] [0] sample_cmdline) = Inl (External ''exit 1'')"
    by code_simp
  then have n1: "snd (main failing_trim_world [1, 0] [0] sample_cmdline) \<noteq> Inr ()" by simp
  from all_or_nothing [of failing_trim_world "[1, 0]" "[0]" sample_cmdline,
      THEN conjunct1, rule_format, OF n1]
  have w1: "filter is_Write_tsv (fst (main failing_trim_world [1, 0] [0] sample_cmdline)) = []" .
  have s2: "main failing_detect_world [1, 0] [0] sample_cmdline =
       ([Mkdir ''out'', Pool 2, Submit_detect ''a_1.fastq.gz'', Submit_detect ''a_2.fastq.gz''],
        Inl (External ''no reads''))"
    by code_simp
  have d2: "detect_most_likely_adapter failing_detect_world ''a_1.fastq.gz''
              = Inl (External ''no reads'')"
    by code_simp
  have "\<exists>f e. Submit_detect f \<in> set (fst (main failing_detect_world [1, 0] [0] sample_cmdline))
              \<and> detect_most_likely_adapter failing_detect_world f = Inl e"
    unfolding s2 using d2 by auto
  from all_or_nothing [of failing_detect_world "[1, 0]" "[0]" sample_cmdline,
      THEN conjunct2, THEN conjunct2, THEN conjunct1, rule_format, OF this]
  have w2: "filter (\<lambda>ev. is_Submit_trim_se ev \<or> is_Submit_trim_pe ev \<or> is_Write_tsv ev)
        (fst (main failing_detect_world [1, 0] [0] sample_cmdline)) = []"
    by (rule conjunct2)
  have s3: "snd (main sample_world [1, 0] [0] sample_cmdline) = Inr ()" by code_simp
  from all_or_nothing [of sample_world "[1, 0]" "[0]" sample_cmdline,
      THEN conjunct2, THEN conjunct1, rule_format, OF s3]
  have w3: "\<exists>pre p m. fst (main sample_world [1, 0] [0] sample_cmdline) = pre @ [Write_tsv p m]
         \<and> filter is_Write_tsv pre = []"
    by (rule conjunct1)
  have p: "parse_arguments sample_world sample_cmdline = Inr sample_args" by code_simp
  from all_or_nothing [of sample_world "[1, 0]" "[0]" sample_cmdline,
      THEN conjunct2, THEN conjunct2, THEN conjunct2, rule_format, OF p]
  have w4: "length (filter is_Submit_detect (fst (main sample_world [1, 0] [0] sample_cmdline)))
        \<le> arity (paired_end sample_args) * length (fastqs sample_args)"
    by (rule conjunct1)
  from s1 w1 s2 w2 s3 w3 p w4 show ?thesis by blast
qed

text \<open>
  Claim C9.  For every batch that passes \<open>parse_arguments\<close>, the number of processes is
  the minimum of the requested threads and the number of slots (rows times arity), so it is
  never larger than the number of slots; \<open>main\<close> creates one pool of that size, before
  the first task, and no other (\<open>Pool\<close> refuses a size below 1, and then no task is
  submitted at all).
\<close>

theorem pool_size:
  assumes "parse_arguments w c = Inr a"
  shows "num_process a = min (nth a) (int (length (fastqs a)) * (if paired_end a then 2 else 1))
       \<and> num_process a \<le> int (length (fastqs a)) * (if paired_end a then 2 else 1)
       \<and> filter is_Pool (fst (main w o1 o2 c))
           = (if mkdir_p w (out_dir a) = None \<and> 1 \<le> num_process a then [Pool (num_process a)] else [])"
proof -
  have n: "num_process a = min (nth a) (int (length (fastqs a)) * (if paired_end a then 2 else 1))"
    by (auto simp: num_process_def)
  have t: "filter is_Pool (fst (main w o1 o2 c))
           = (if mkdir_p w (out_dir a) = None \<and> 1 \<le> num_process a then [Pool (num_process a)] else [])"
    using assms
    by (cases rule: main_cases [where ?o1.0 = o1 and ?o2.0 = o2])
       (simp_all add: no_pool_in_detect no_pool_in_trim)
  from n t show ?thesis by simp
qed

text \<open>
  The theorem on the sample command line: two slots, four threads requested, a pool of 2.
\<close>

theorem pool_size_witness:
  "parse_arguments sample_world sample_cmdline = Inr sample_args \<and>
   num_process sample_args = 2 \<and>
   filter is_Pool (fst (main sample_world [1, 0] [0] sample_cmdline)) = [Pool 2]"
proof -
  have p: "parse_arguments sample_world sample_cmdline = Inr sample_args" by code_simp
  have n: "num_process sample_args = 2" by code_simp
  have m: "mkdir_p sample_world (out_dir sample_args) = None" by (simp add: sample_world_def)
  from pool_size [OF p, of "[1, 0]" "[0]"] p n m show ?thesis by simp
qed

text \<open>
  Claim C10, as the code has it.  In paired-end mode a FASTQ list given inline (first
  token ending in \<open>.gz\<close>) never passes \<open>parse_arguments\<close>, and \<open>main\<close> ends
  with the error and an empty trace.  The error is the message
  \<open>Need 2 fastqs per replicate for paired end\<close>, except when \<open>--adapters\<close> names an
  existing TSV: if reading it fails the error is the reader's, and if it has rows but not
  as many as there are FASTQs the outer-length check of line 73 comes first and the
  message is \<open>fastqs and adapters dimension mismatch\<close>.
\<close>

theorem paired_end_inline_rejected:
  assumes "cl_paired_end c" and "cl_fastqs c = f # fs" and "endswith f ''.gz''"
  shows "\<exists>e. parse_arguments w c = Inl e \<and> main w o1 o2 c = ([], Inl e)
           \<and> e = (case cl_adapters c of
                    None \<Rightarrow> ArgumentTypeError msg_need2
                  | Some [] \<Rightarrow> ArgumentTypeError msg_need2
                  | Some (a # as) \<Rightarrow>
                      if path_exists w a then
                        (case read_tsv w a of
                           Inl e' \<Rightarrow> e'
                         | Inr m \<Rightarrow>
                             if m \<noteq> [] \<and> length m \<noteq> length (f # fs)
                             then ArgumentTypeError msg_mismatch
                             else ArgumentTypeError msg_need2)
                      else ArgumentTypeError msg_need2)"
proof -
  let ?fq = "map (\<lambda>f. [f]) (f # fs)"
  let ?e = "case cl_adapters c of
                    None \<Rightarrow> ArgumentTypeError msg_need2
                  | Some [] \<Rightarrow> ArgumentTypeError msg_need2
                  | Some (a # as) \<Rightarrow>
                      if path_exists w a then
                        (case read_tsv w a of
                           Inl e' \<Rightarrow> e'
                         | Inr m \<Rightarrow>
                             if m \<noteq> [] \<and> length m \<noteq> length (f # fs)
                             then ArgumentTypeError msg_mismatch
                             else ArgumentTypeError msg_need2)
                      else ArgumentTypeError msg_need2"
  have pf: "parse_fastqs w (cl_fastqs c) = Inr ?fq"
    using assms(2,3) by (simp add: parse_fastqs_def)
  have dflt: "check_dimension True ?fq (map (\<lambda>fs. Cols (map (\<lambda>_. []) fs)) ?fq)
                = Inl (ArgumentTypeError msg_need2)"
    by (rule check_dimension_singletons) simp
  have p: "parse_arguments w c = Inl ?e"
  proof (cases "cl_adapters c")
    case None
    then show ?thesis
      using dflt assms(1) by (simp add: parse_arguments_def pf parse_adapters_def fill_adapters_def)
  next
    case (Some toks)
    show ?thesis
    proof (cases toks)
      case Nil
      with Some show ?thesis
        using dflt assms(1)
        by (simp add: parse_arguments_def pf parse_adapters_def fill_adapters_def)
    next
      case (Cons a as)
      show ?thesis
      proof (cases "path_exists w a")
        case False
        have "check_dimension True (map (\<lambda>a. [a]) (a # as)) (map Tok (a # as))
                = Inl (ArgumentTypeError msg_need2)"
          by (rule check_dimension_singletons) simp
        with Some Cons False show ?thesis
          using assms(1)
          by (simp add: parse_arguments_def pf parse_adapters_def fill_adapters_def)
      next
        case True
        show ?thesis
        proof (cases "read_tsv w a")
          case (Inl e')
          with Some Cons True show ?thesis
            by (simp add: parse_arguments_def pf parse_adapters_def)
        next
          case (Inr m)
          show ?thesis
          proof (cases m)
            case Nil
            with Some Cons True Inr show ?thesis
              using dflt assms(1)
              by (simp add: parse_arguments_def pf parse_adapters_def fill_adapters_def)
          next
            case m: (Cons r rs)
            show ?thesis
            proof (cases "length m = length (f # fs)")
              case same: True
              have "check_dimension True ?fq (map Cols m) = Inl (ArgumentTypeError msg_need2)"
                by (rule check_dimension_singletons) (use same in simp)
              with Some Cons True Inr m same show ?thesis
                using assms(1)
                by (simp add: parse_arguments_def pf parse_adapters_def fill_adapters_def)
            next
              case diff: False
              then have "check_dimension True ?fq (map Cols m) = Inl (ArgumentTypeError msg_mismatch)"
                by (simp add: check_dimension_def)
              with Some Cons True Inr m diff show ?thesis
                using assms(1)
                by (simp add: parse_arguments_def pf parse_adapters_def fill_adapters_def)
            qed
          qed
        qed
      qed
    qed
  qed
  from p main_parse_error [OF p] show ?thesis by blast
qed

text \<open>The theorem on two inline FASTQs without adapters.\<close>

theorem paired_end_inline_rejected_witness:
  "endswith ''a_1.fastq.gz'' ''.gz''
   \<and> parse_arguments sample_world
         \<lparr> cl_fastqs = [''a_1.fastq.gz'', ''a_2.fastq.gz''], cl_adapters = None,
           cl_auto_detect_adapter = False, cl_min_trim_len = 5, cl_err_rate = ''0.1'',
           cl_paired_end = True, cl_nth = 1, cl_out_dir = ''out'', cl_out_tsv = ''out.tsv'' \<rparr>
       = Inl (ArgumentTypeError msg_need2)"
proof -
  let ?c = "\<lparr> cl_fastqs = [''a_1.fastq.gz'', ''a_2.fastq.gz''], cl_adapters = None,
           cl_auto_detect_adapter = False, cl_min_trim_len = 5, cl_err_rate = ''0.1'',
           cl_paired_end = True, cl_nth = 1, cl_out_dir = ''out'', cl_out_tsv = ''out.tsv'' \<rparr>"
  have e: "endswith ''a_1.fastq.gz'' ''.gz''" by code_simp
  have "cl_paired_end ?c" and "cl_fastqs ?c = ''a_1.fastq.gz'' # [''a_2.fastq.gz'']"
    by simp_all
  from paired_end_inline_rejected [OF this e, of sample_world]
  have "parse_arguments sample_world ?c = Inl (ArgumentTypeError msg_need2)"
    by simp
  with e show ?thesis by simp
qed

text \<open>
  Claim C10 as stated fails: two inline FASTQs in paired-end mode with an adapter TSV of one
  row are rejected with the dimension-mismatch message, not the paired-end one.
\<close>

theorem paired_end_inline_other_error:
  "parse_arguments sample_world
         \<lparr> cl_fastqs = [''a_1.fastq.gz'', ''a_2.fastq.gz''], cl_adapters = Some [''ad.tsv''],
           cl_auto_detect_adapter = False, cl_min_trim_len = 5, cl_err_rate = ''0.1'',
           cl_paired_end = True, cl_nth = 1, cl_out_dir = ''out'', cl_out_tsv = ''out.tsv'' \<rparr>
     = Inl (ArgumentTypeError ''fastqs and adapters dimension mismatch.'')"
  by code_simp

end
